theory Spec2Isabelle
  imports Main
begin

section \<open>Documents: the trees that the YAML loader produces\<close>

text \<open>
  A rendered document is a tree of mappings, sequences and scalars. A mapping is an
  association list in insertion order, as a Python dict is; its keys are strings and
  are distinct. Floating point scalars are not modelled.
\<close>

datatype val =
    VNone
  | VBool bool
  | VInt int
  | is_str: VStr (the_str: string)
  | is_list: VList (the_list: "val list")
  | is_dict: VDict (the_dict: "(string \<times> val) list")

type_synonym dict = "(string \<times> val) list"

text \<open>
  The exceptions that the code can raise, as values. \<open>UpstreamError\<close> is an exception of
  the renderer. \<open>IntegerKey\<close> is not an exception: it marks the run of the merge that stores
  an integer as a key of \<open>a\<close>. Such a mapping is not a value of this model, and the run is
  not followed further.
\<close>

datatype error =
    IndexError
  | TypeError
  | AttributeError
  | UpstreamError string
  | IntegerKey

text \<open>Python's \<^verbatim>\<open>==\<close> on the values compared by the merge: \<^verbatim>\<open>True == 1\<close> and
  \<^verbatim>\<open>False == 0\<close> hold, everything else is structural on the pairs that reach the
  comparison (two sequences or two mappings never do).\<close>

fun py_eq :: "val \<Rightarrow> val \<Rightarrow> bool" where
  "py_eq (VBool b) (VInt i) = (i = (if b then 1 else 0))"
| "py_eq (VInt i) (VBool b) = (i = (if b then 1 else 0))"
| "py_eq x y = (x = y)"

text \<open>\<^verbatim>\<open>d[key] = v\<close>: an existing key keeps its position, a new key goes last.\<close>

fun dict_set :: "('k \<times> 'v) list \<Rightarrow> 'k \<Rightarrow> 'v \<Rightarrow> ('k \<times> 'v) list" where
  "dict_set [] k v = [(k, v)]"
| "dict_set ((k', v') # r) k v =
     (if k' = k then (k, v) # r else (k', v') # dict_set r k v)"

section \<open>Merge Engine: \<^verbatim>\<open>dict_merge\<close>\<close>

text \<open>
  \<^verbatim>\<open>dict_merge(a, b)\<close> walks the keys of \<open>b\<close> in order and updates \<open>a\<close> in place. It
  also mutates \<open>b\<close>: a sequence of \<open>b\<close> that starts with the sentinel loses it
  (\<^verbatim>\<open>b[key].pop(0)\<close>). The model returns both trees as the call leaves them.
  \<open>dict_merge_items a items\<close> is the loop over the (remaining) items of \<open>b\<close>.
\<close>

function dict_merge_items :: "dict \<Rightarrow> dict \<Rightarrow> error + (dict \<times> dict)" where
  "dict_merge_items a [] = Inr (a, [])"
| "dict_merge_items a ((key, bv) # rest) =
     (case
        (case map_of a key of
           None \<Rightarrow> Inr (dict_set a key bv, bv)
         | Some av \<Rightarrow>
             if is_list av \<and> is_list bv then
               (case the_list bv of
                  [] \<Rightarrow> Inl IndexError
                | y # ys' \<Rightarrow>
                    if y = VStr ''^'' then Inr (dict_set a key (VList ys'), VList ys')
                    else Inr (dict_set a key (VList (the_list av @ the_list bv)), bv))
             else if is_dict av \<and> is_dict bv then
               (case dict_merge_items (the_dict av) (the_dict bv) of
                  Inl e \<Rightarrow> Inl e
                | Inr (ad', bd') \<Rightarrow> Inr (dict_set a key (VDict ad'), VDict bd'))
             else if py_eq av bv then Inr (a, bv)
             else Inr (dict_set a key bv, bv))
      of
        Inl e \<Rightarrow> Inl e
      | Inr (a1, bv1) \<Rightarrow>
          (case dict_merge_items a1 rest of
             Inl e \<Rightarrow> Inl e
           | Inr (a', rest') \<Rightarrow> Inr (a', (key, bv1) # rest')))"
  by pat_completeness auto
termination
  apply (relation "measure (\<lambda>(a, b). size (VDict b))")
    apply simp
  subgoal for a key bv rest av by (cases bv) auto
  subgoal by simp
  done

text \<open>
  \<^verbatim>\<open>dict_merge(a, b)\<close> with \<open>a\<close> a mapping. When \<open>b\<close> is not a mapping, \<^verbatim>\<open>for key in b\<close>
  raises on a scalar that is not iterable and does nothing on an empty sequence or an
  empty string. On a non-empty string the first \<^verbatim>\<open>b[key]\<close> raises. On a non-empty sequence
  the first element decides: a string or \<^verbatim>\<open>None\<close> cannot index the sequence, a sequence
  or a mapping cannot be hashed, an integer (or a boolean, which is one) out of range
  raises IndexError, and an integer in range is stored in \<open>a\<close> as a key (\<^verbatim>\<open>a[0] = b[0]\<close>). A
  mapping with a key that is not a string is not a value of this model: the run stops
  there with \<open>IntegerKey\<close>, whatever the code does with the rest of the sequence.
\<close>

definition dict_merge :: "dict \<Rightarrow> val \<Rightarrow> error + (dict \<times> val)" where
  "dict_merge a b =
     (case b of
        VDict items \<Rightarrow>
          (case dict_merge_items a items of
             Inl e \<Rightarrow> Inl e
           | Inr (a', items') \<Rightarrow> Inr (a', VDict items'))
      | VList [] \<Rightarrow> Inr (a, b)
      | VList (x # xs) \<Rightarrow>
          (case x of
             VInt i \<Rightarrow>
               if - int (length (x # xs)) \<le> i \<and> i < int (length (x # xs))
               then Inl IntegerKey else Inl IndexError
           | VBool t \<Rightarrow>
               if (if t then 1 else 0) < length (x # xs)
               then Inl IntegerKey else Inl IndexError
           | _ \<Rightarrow> Inl TypeError)
      | VStr [] \<Rightarrow> Inr (a, b)
      | _ \<Rightarrow> Inl TypeError)"

section \<open>Strings\<close>

definition startswith :: "string \<Rightarrow> string \<Rightarrow> bool" where
  "startswith p s = (take (length p) s = p)"

definition endswith :: "string \<Rightarrow> string \<Rightarrow> bool" where
  "endswith p s = (length p \<le> length s \<and> drop (length s - length p) s = p)"

text \<open>\<^verbatim>\<open>s.replace(old, new)\<close>: every occurrence of \<open>old\<close>, left to right, not overlapping.\<close>

function str_replace :: "string \<Rightarrow> string \<Rightarrow> string \<Rightarrow> string" where
  "str_replace old new [] = (if old = [] then new else [])"
| "str_replace old new (c # s) =
     (if old = [] then new @ c # str_replace old new s
      else if startswith old (c # s) then new @ str_replace old new (drop (length old - 1) s)
      else c # str_replace old new s)"
  by pat_completeness auto
termination
  by (relation "measure (\<lambda>(old, new, s). length s)") auto

text \<open>\<^verbatim>\<open>s.split(sep)\<close> for a separator of one character.\<close>

fun split_on :: "char \<Rightarrow> string \<Rightarrow> string list" where
  "split_on c [] = [[]]"
| "split_on c (x # xs) =
     (if x = c then [] # split_on c xs
      else (case split_on c xs of w # ws \<Rightarrow> (x # w) # ws | [] \<Rightarrow> [[x]]))"

text \<open>\<^verbatim>\<open>i in a\<close> for two strings: \<open>i\<close> occurs in \<open>a\<close>.\<close>

fun is_substring :: "string \<Rightarrow> string \<Rightarrow> bool" where
  "is_substring i [] = (i = [])"
| "is_substring i (c # s) = (startswith i (c # s) \<or> is_substring i s)"

text \<open>Truth value of a document in a condition.\<close>

fun truthy :: "val \<Rightarrow> bool" where
  "truthy VNone = False"
| "truthy (VBool b) = b"
| "truthy (VInt i) = (i \<noteq> 0)"
| "truthy (VStr s) = (s \<noteq> [])"
| "truthy (VList xs) = (xs \<noteq> [])"
| "truthy (VDict d) = (d \<noteq> [])"

text \<open>\<^verbatim>\<open>d.get(key, {})\<close>.\<close>

definition dict_get :: "dict \<Rightarrow> string \<Rightarrow> val" where
  "dict_get d key = (case map_of d key of None \<Rightarrow> VDict [] | Some v \<Rightarrow> v)"

section \<open>Storage, rendering and the run state\<close>

text \<open>
  \<^verbatim>\<open>salt_data\<close> carries the storage root, the node id and the live pillar accumulator
  \<^verbatim>\<open>__pillar__\<close>; its other entries are constant during a run and only read by the
  template renderer. The filesystem walk, the glob matcher and the renderer with the
  YAML loader are external collaborators: functions of the environment.
\<close>

record salt_data =
  sd_path :: string
  sd_minion_id :: string
  sd_pillar :: dict

record env =
  os_walk :: "string \<Rightarrow> (string \<times> string list \<times> string list) list"
  glob :: "string \<Rightarrow> string list"
  render_yaml :: "string \<Rightarrow> salt_data \<Rightarrow> error + val"

text \<open>The state of one resolve call: \<^verbatim>\<open>salt_data\<close>, the classes already seen, and the
  warnings logged so far.\<close>

record run_state =
  rs_data :: salt_data
  rs_seen :: "string list"
  rs_log :: "string list"

text \<open>\<^verbatim>\<open>os.path.join\<close> with the separator \<^verbatim>\<open>/\<close>.\<close>

definition path_join2 :: "string \<Rightarrow> string \<Rightarrow> string" where
  "path_join2 a b =
     (if startswith ''/'' b \<and> b \<noteq> [] then b
      else if a = [] \<or> endswith ''/'' a then a @ b
      else a @ ''/'' @ b)"

definition path_join :: "string \<Rightarrow> string list \<Rightarrow> string" where
  "path_join a ps = foldl path_join2 a ps"

section \<open>Path Resolver and Class Loader\<close>

text \<open>The three candidate paths of a class, in the order
  \<^verbatim>\<open>(straight, sub_init, sub_straight)\<close> of the source.\<close>

definition get_class_paths :: "string \<Rightarrow> string \<Rightarrow> string \<times> string \<times> string" where
  "get_class_paths cls saltclass_path =
     (let straight = path_join saltclass_path [''classes'', cls @ ''.yml''];
          sub_straight = path_join saltclass_path
                           [''classes'', str_replace ''.'' ''/'' cls @ ''.yml''];
          sub_init = path_join saltclass_path
                           [''classes'', str_replace ''.'' ''/'' cls, ''init.yml'']
      in (straight, sub_init, sub_straight))"

definition get_class_from_file :: "string \<Rightarrow> string \<Rightarrow> string" where
  "get_class_from_file file saltclass_path =
     (let f1 = drop (length (path_join saltclass_path [''classes'']) + 1) file;
          f2 = take (length f1 - 4) f1;
          f3 = str_replace ''/'' ''.'' f2
      in if endswith ''.init'' f3 then take (length f3 - 5) f3 else f3)"

text \<open>All files below a directory, each joined with its directory.\<close>

definition walk_files :: "env \<Rightarrow> string \<Rightarrow> string list" where
  "walk_files e dir =
     concat (map (\<lambda>(root, dirs, files). map (path_join2 root) files) (os_walk e dir))"

definition get_class :: "env \<Rightarrow> string \<Rightarrow> run_state \<Rightarrow> error + (val \<times> run_state)" where
  "get_class e cls st =
     (let saltclass_path = sd_path (rs_data st);
          (straight, sub_init, sub_straight) = get_class_paths cls saltclass_path;
          l_files = walk_files e (path_join saltclass_path [''classes''])
      in if straight \<in> set l_files then
           (case render_yaml e straight (rs_data st) of
              Inl err \<Rightarrow> Inl err | Inr doc \<Rightarrow> Inr (doc, st))
         else if sub_straight \<in> set l_files then
           (case render_yaml e sub_straight (rs_data st) of
              Inl err \<Rightarrow> Inl err | Inr doc \<Rightarrow> Inr (doc, st))
         else if sub_init \<in> set l_files then
           (case render_yaml e sub_init (rs_data st) of
              Inl err \<Rightarrow> Inl err | Inr doc \<Rightarrow> Inr (doc, st))
         else Inr (VDict [],
                   st\<lparr>rs_log := rs_log st @ [cls @ '': Class definition not found'']\<rparr>))"

text \<open>Node lookup: the loop of \<^verbatim>\<open>expanded_dict_from_minion\<close> over the walk of
  \<^verbatim>\<open>nodes/\<close>. Each file named after the node overwrites \<^verbatim>\<open>_file\<close>.\<close>

definition node_file_step :: "string \<Rightarrow> string \<Rightarrow> string \<times> string list \<times> string list \<Rightarrow> string" where
  "node_file_step minion_id file entry =
     (case entry of (root, dirs, files) \<Rightarrow>
        foldl (\<lambda>f minion_file.
                 if minion_file = minion_id @ ''.yml'' then path_join2 root minion_file else f)
              file files)"

definition node_file :: "env \<Rightarrow> string \<Rightarrow> salt_data \<Rightarrow> string" where
  "node_file e minion_id sd =
     foldl (node_file_step minion_id) [] (os_walk e (path_join (sd_path sd) [''nodes'']))"

text \<open>Every file named after the node, in traversal order.\<close>

definition node_matches :: "env \<Rightarrow> string \<Rightarrow> salt_data \<Rightarrow> string list" where
  "node_matches e minion_id sd =
     concat (map (\<lambda>(root, dirs, files).
                    map (path_join2 root) (filter (\<lambda>f. f = minion_id @ ''.yml'') files))
                 (os_walk e (path_join (sd_path sd) [''nodes''])))"

text \<open>The body of the loop of \<^verbatim>\<open>dict_merge\<close> for one key of \<open>b\<close>: the new \<open>a\<close> and the
  value that \<open>b\<close> holds for the key afterwards.\<close>

definition merge_item :: "dict \<Rightarrow> string \<Rightarrow> val \<Rightarrow> error + (dict \<times> val)" where
  "merge_item a key bv =
     (case map_of a key of
        None \<Rightarrow> Inr (dict_set a key bv, bv)
      | Some av \<Rightarrow>
          if is_list av \<and> is_list bv then
            (case the_list bv of
               [] \<Rightarrow> Inl IndexError
             | y # ys' \<Rightarrow>
                 if y = VStr ''^'' then Inr (dict_set a key (VList ys'), VList ys')
                 else Inr (dict_set a key (VList (the_list av @ the_list bv)), bv))
          else if is_dict av \<and> is_dict bv then
            (case dict_merge_items (the_dict av) (the_dict bv) of
               Inl e \<Rightarrow> Inl e
             | Inr (ad', bd') \<Rightarrow> Inr (dict_set a key (VDict ad'), VDict bd'))
          else if py_eq av bv then Inr (a, bv)
          else Inr (dict_set a key bv, bv))"

section \<open>Variable Expander\<close>

definition newline :: char where
  "newline = CHR 0x0A"

definition backslash :: char where
  "backslash = CHR 0x5C"

text \<open>
  The matches of the regular expression \<^verbatim>\<open>(^|.)\$\{.*?\}\<close> in a string, as
  \<^verbatim>\<open>re.finditer\<close> yields them: scanning from the left, at each position first with the
  empty alternative (only at the start of the string), then with one leading character
  that is not a newline; the token ends at the first closing brace, and no newline may
  come before it. The scan resumes after a match.
\<close>

fun until_close :: "string \<Rightarrow> string option" where
  "until_close [] = None"
| "until_close (c # s) =
     (if c = CHR ''}'' then Some [c]
      else if c = newline then None
      else map_option (Cons c) (until_close s))"

fun match_brace :: "string \<Rightarrow> string option" where
  "match_brace (a # b # r) =
     (if a = CHR ''$'' \<and> b = CHR ''{'' then map_option (\<lambda>t. a # b # t) (until_close r)
      else None)"
| "match_brace s = None"

definition match_here :: "bool \<Rightarrow> string \<Rightarrow> string option" where
  "match_here at_start s =
     (case (if at_start then match_brace s else None) of
        Some m \<Rightarrow> Some m
      | None \<Rightarrow>
          (case s of
             [] \<Rightarrow> None
           | c # s' \<Rightarrow> if c = newline then None else map_option (Cons c) (match_brace s')))"

fun finditer_from :: "bool \<Rightarrow> nat \<Rightarrow> string \<Rightarrow> string list" where
  "finditer_from at_start skip [] = []"
| "finditer_from at_start skip (c # s) =
     (if 0 < skip then finditer_from False (skip - 1) s
      else (case match_here at_start (c # s) of
              Some m \<Rightarrow> m # finditer_from False (length m - 1) s
            | None \<Rightarrow> finditer_from False 0 s))"

definition finditer :: "string \<Rightarrow> string list" where
  "finditer s = finditer_from True 0 s"

text \<open>
  \<^verbatim>\<open>dict_search_and_replace(d, old, new, expanded)\<close>: every value of a mapping and every
  element of a sequence that is the value of a mapping, if it is the string \<open>old\<close>,
  becomes \<open>new\<close>; mappings are searched recursively, also as elements of such a sequence.
  A sequence that is itself an element of a sequence is not searched. The list
  \<^verbatim>\<open>expanded\<close> is only appended to and never read; it is left out.
\<close>

function dict_search_and_replace :: "dict \<Rightarrow> string \<Rightarrow> string \<Rightarrow> dict"
  and replace_in_list :: "val list \<Rightarrow> string \<Rightarrow> string \<Rightarrow> val list" where
  "dict_search_and_replace [] old new = []"
| "dict_search_and_replace ((k, v) # rest) old new =
     (k, (if is_dict v then VDict (dict_search_and_replace (the_dict v) old new)
          else if is_list v then VList (replace_in_list (the_list v) old new)
          else if v = VStr old then VStr new
          else v))
     # dict_search_and_replace rest old new"
| "replace_in_list [] old new = []"
| "replace_in_list (i # rest) old new =
     (if is_dict i then VDict (dict_search_and_replace (the_dict i) old new)
      else if is_str i \<and> i = VStr old then VStr new
      else i)
     # replace_in_list rest old new"
  by pat_completeness auto
termination
  apply (relation "measure (\<lambda>x. case x of Inl (d, old, new) \<Rightarrow> size (VDict d)
                                       | Inr (xs, old, new) \<Rightarrow> size (VList xs))")
       apply simp
  subgoal for k v rest old new by (cases v) auto
  subgoal for k v rest old new by (cases v) auto
  subgoal by simp
  subgoal for i rest old new by (cases i) auto
  subgoal by simp
  done

text \<open>
  \<^verbatim>\<open>find_value_to_expand(x, v)\<close>: the text between \<^verbatim>\<open>${\<close> and \<^verbatim>\<open>}\<close> is split at the
  colons and the root is descended segment by segment. \<^verbatim>\<open>i in a\<close> is key membership in a
  mapping; in a string it is the substring test and in a sequence the element test, and
  then \<^verbatim>\<open>a.get\<close> does not exist; on an integer or a boolean it raises.
\<close>

fun find_value_descend :: "val \<Rightarrow> string list \<Rightarrow> string \<Rightarrow> error + val" where
  "find_value_descend a [] v = Inr a"
| "find_value_descend a (i # rest) v =
     (case a of
        VNone \<Rightarrow> Inr (VStr v)
      | VDict d \<Rightarrow>
          (case map_of d i of
             Some a' \<Rightarrow> find_value_descend a' rest v
           | None \<Rightarrow> Inr (VStr v))
      | VStr s \<Rightarrow> if is_substring i s then Inl AttributeError else Inr (VStr v)
      | VList xs \<Rightarrow> if VStr i \<in> set xs then Inl AttributeError else Inr (VStr v)
      | _ \<Rightarrow> Inl TypeError)"

definition find_value_to_expand :: "dict \<Rightarrow> string \<Rightarrow> error + val" where
  "find_value_to_expand x v =
     find_value_descend (VDict x) (split_on CHR '':'' (drop 2 (butlast v))) v"

text \<open>
  One match of \<^verbatim>\<open>find_and_process_re\<close>. The state is the current \<^verbatim>\<open>_str\<close>, the argument
  \<^verbatim>\<open>v\<close> when it is a string (\<open>None\<close> when it is the sequence that holds \<^verbatim>\<open>_str\<close>), and
  the tree \<open>b\<close>. \<^verbatim>\<open>str.replace\<close> raises when the value found is not a string.
\<close>

definition process_match ::
  "string \<Rightarrow> string \<times> string option \<times> dict \<Rightarrow> error + (string \<times> string option \<times> dict)" where
  "process_match re_str state =
     (case state of (str, v, b) \<Rightarrow>
        if startswith [backslash] re_str then
          (let v_new = str_replace re_str (dropWhile (\<lambda>c. c = backslash) re_str) str
           in Inr (str, v, dict_search_and_replace b str v_new))
        else if \<not> startswith ''$'' re_str then
          (case find_value_to_expand b (tl re_str) of
             Inl err \<Rightarrow> Inl err
           | Inr v_expanded \<Rightarrow>
               if is_str v_expanded then
                 (let v_new = str_replace (tl re_str) (the_str v_expanded) str
                  in Inr (v_new, v, dict_search_and_replace b str v_new))
               else Inl TypeError)
        else
          (case find_value_to_expand b re_str of
             Inl err \<Rightarrow> Inl err
           | Inr v_expanded \<Rightarrow>
               if is_str v_expanded then
                 (let v_new = (case v of
                                 Some vs \<Rightarrow> str_replace re_str (the_str v_expanded) vs
                               | None \<Rightarrow> str_replace re_str (the_str v_expanded) str)
                  in Inr (v_new, Some v_new, dict_search_and_replace b str v_new))
               else Inl TypeError))"

fun process_matches ::
  "string list \<Rightarrow> string \<times> string option \<times> dict \<Rightarrow> error + (string \<times> string option \<times> dict)" where
  "process_matches [] state = Inr state"
| "process_matches (re_str # rest) state =
     (case process_match re_str state of
        Inl err \<Rightarrow> Inl err
      | Inr state' \<Rightarrow> process_matches rest state')"

definition find_and_process_re :: "string \<Rightarrow> string option \<Rightarrow> dict \<Rightarrow> error + dict" where
  "find_and_process_re str v b =
     (case process_matches (finditer str) (str, v, b) of
        Inl err \<Rightarrow> Inl err
      | Inr (str', v', b') \<Rightarrow> Inr b')"

text \<open>
  \<^verbatim>\<open>expand_variables(a, b, expanded)\<close>. At the top \<open>b\<close> is a shallow copy of \<open>a\<close>: the two
  mappings are distinct, every mapping and sequence below them is shared, and
  \<^verbatim>\<open>dict_search_and_replace\<close> writes into \<open>b\<close> and the shared objects in place. So the
  strings read at the top come from \<open>a\<close> as it was, and every string read below the top
  is the one that \<open>b\<close> holds at that place when the loop reaches it. The loops follow the
  shape of \<open>a\<close>, which the replacement of strings by strings does not change; a place
  below the top is named by its path from the root of \<open>b\<close>.
\<close>

datatype pstep = PKey string | PIdx nat

fun lookup_path :: "val \<Rightarrow> pstep list \<Rightarrow> val option" where
  "lookup_path v [] = Some v"
| "lookup_path v (PKey k # ps) =
     (case v of
        VDict d \<Rightarrow> (case map_of d k of Some v' \<Rightarrow> lookup_path v' ps | None \<Rightarrow> None)
      | _ \<Rightarrow> None)"
| "lookup_path v (PIdx i # ps) =
     (case v of
        VList xs \<Rightarrow> (if i < length xs then lookup_path (xs ! i) ps else None)
      | _ \<Rightarrow> None)"

definition current_str :: "dict \<Rightarrow> pstep list \<Rightarrow> string \<Rightarrow> string" where
  "current_str b p s = (case lookup_path (VDict b) p of Some (VStr s') \<Rightarrow> s' | _ \<Rightarrow> s)"

function expand_items :: "bool \<Rightarrow> pstep list \<Rightarrow> dict \<Rightarrow> dict \<Rightarrow> error + dict"
  and expand_elems :: "pstep list \<Rightarrow> nat \<Rightarrow> val list \<Rightarrow> dict \<Rightarrow> error + dict" where
  "expand_items is_top p [] b = Inr b"
| "expand_items is_top p ((k, v) # rest) b =
     (case
        (if is_dict v then expand_items False (p @ [PKey k]) (the_dict v) b
         else if is_list v then expand_elems (p @ [PKey k]) 0 (the_list v) b
         else if is_str v then
           (let s = (if is_top then the_str v else current_str b (p @ [PKey k]) (the_str v))
            in find_and_process_re s (Some s) b)
         else Inr b)
      of
        Inl err \<Rightarrow> Inl err
      | Inr b' \<Rightarrow> expand_items is_top p rest b')"
| "expand_elems p x [] b = Inr b"
| "expand_elems p x (i # rest) b =
     (case
        (if is_dict i then expand_items False (p @ [PIdx x]) (the_dict i) b
         else if is_str i then
           find_and_process_re (current_str b (p @ [PIdx x]) (the_str i)) None b
         else Inr b)
      of
        Inl err \<Rightarrow> Inl err
      | Inr b' \<Rightarrow> expand_elems p (Suc x) rest b')"
  by pat_completeness auto
termination
  apply (relation "measure (\<lambda>x. case x of Inl (is_top, p, d, b) \<Rightarrow> size (VDict d)
                                       | Inr (p, x, xs, b) \<Rightarrow> size (VList xs))")
       apply simp
  subgoal for is_top p k v rest b by (cases v) auto
  subgoal for is_top p k v rest b by (cases v) auto
  subgoal by simp
  subgoal for p x i rest b by (cases i) auto
  subgoal by simp
  done

definition expand_variables :: "val \<Rightarrow> error + dict" where
  "expand_variables a =
     (if is_dict a then expand_items True [] (the_dict a) (the_dict a)
      else Inl AttributeError)"

section \<open>Glob Expander\<close>

text \<open>\<^verbatim>\<open>for cls in classes\<close>: the elements of a sequence (each must be a string, or
  \<^verbatim>\<open>cls.replace\<close> does not exist), the characters of a string, the keys of a mapping.\<close>

definition class_names :: "val \<Rightarrow> error + string list" where
  "class_names classes =
     (case classes of
        VList xs \<Rightarrow> if list_all is_str xs then Inr (map the_str xs) else Inl AttributeError
      | VStr s \<Rightarrow> Inr (map (\<lambda>c. [c]) s)
      | VDict d \<Rightarrow> Inr (map fst d)
      | _ \<Rightarrow> Inl TypeError)"

text \<open>The class names matched, and the warning logged when there is none.\<close>

definition match_class_glob :: "env \<Rightarrow> string \<Rightarrow> string \<Rightarrow> string list \<times> string list" where
  "match_class_glob e cls saltclass_path =
     (let (straight, sub_init, sub_straight) = get_class_paths cls saltclass_path;
          matches = glob e straight @ glob e sub_straight @ glob e sub_init
      in (map (\<lambda>m. get_class_from_file m saltclass_path) matches,
          if matches = [] then [cls @ '': Class globbing did not yield any results''] else []))"

text \<open>Appending each element that is not yet in the list: duplicates removed, the first
  occurrence kept.\<close>

fun dedup_into :: "'a list \<Rightarrow> 'a list \<Rightarrow> 'a list" where
  "dedup_into acc [] = acc"
| "dedup_into acc (x # xs) =
     (if x \<in> set acc then dedup_into acc xs else dedup_into (acc @ [x]) xs)"

definition expand_classes_glob ::
  "env \<Rightarrow> val \<Rightarrow> run_state \<Rightarrow> error + (string list \<times> run_state)" where
  "expand_classes_glob e classes st =
     (case class_names classes of
        Inl err \<Rightarrow> Inl err
      | Inr names \<Rightarrow>
          (let results = map (\<lambda>cls. match_class_glob e cls (sd_path (rs_data st))) names;
               all_classes = concat (map fst results)
           in Inr (dedup_into [] all_classes,
                   st\<lparr>rs_log := rs_log st @ concat (map snd results)\<rparr>)))"

section \<open>Expansion Engine\<close>

text \<open>
  The \<^verbatim>\<open>OrderedDict\<close> of the expansion maps a class name, and at last the node id, to
  its document. \<^verbatim>\<open>update\<close> stores the items of the other mapping in their order, each
  with \<^verbatim>\<open>d[key] = v\<close>; \<^verbatim>\<open>move_to_end\<close> takes a key out and appends it.
\<close>

definition od_update :: "('k \<times> 'v) list \<Rightarrow> ('k \<times> 'v) list \<Rightarrow> ('k \<times> 'v) list" where
  "od_update d other = foldl (\<lambda>d (k, v). dict_set d k v) d other"

definition move_to_end :: "('k \<times> 'v) list \<Rightarrow> 'k \<Rightarrow> ('k \<times> 'v) list" where
  "move_to_end d k =
     (case map_of d k of
        None \<Rightarrow> d
      | Some v \<Rightarrow> filter (\<lambda>(k', v'). k' \<noteq> k) d @ [(k, v)])"

text \<open>
  The first part of the loop body of \<^verbatim>\<open>expand_classes_in_order\<close> for a class not yet
  seen: the class is loaded, an empty rendering (\<^verbatim>\<open>None\<close>) becomes the empty mapping, and
  its \<^verbatim>\<open>pillars\<close>, when not empty, are merged into the live \<^verbatim>\<open>__pillar__\<close> at once.

  The merge stores the mappings and sequences of these \<^verbatim>\<open>pillars\<close> themselves in
  \<^verbatim>\<open>__pillar__\<close> (\<^verbatim>\<open>a[key] = b[key]\<close>), so from then on every later merge into
  \<^verbatim>\<open>__pillar__\<close> can change what the class document holds under \<^verbatim>\<open>pillars\<close>. Documents
  are values here, so the document that the expansion keeps for a class whose pillars
  were merged is the document without its \<^verbatim>\<open>pillars\<close> entry: all that is said of a
  class document in the expansion is about its other keys, which no merge touches
  while the expansion runs. \<^verbatim>\<open>__pillar__\<close> itself is the tree that the merges leave.
\<close>

definition without_pillars :: "dict \<Rightarrow> dict" where
  "without_pillars d = filter (\<lambda>(k, v). k \<noteq> ''pillars'') d"

definition load_class :: "env \<Rightarrow> string \<Rightarrow> run_state \<Rightarrow> error + (dict \<times> run_state)" where
  "load_class e klass st =
     (case get_class e klass st of
        Inl err \<Rightarrow> Inl err
      | Inr (doc, st1) \<Rightarrow>
          (let doc1 = (if doc = VNone then VDict [] else doc)
           in if \<not> is_dict doc1 then Inl AttributeError
              else
                (let d = the_dict doc1; new_pillars = dict_get d ''pillars''
                 in if truthy new_pillars then
                      (case dict_merge (sd_pillar (rs_data st1)) new_pillars of
                         Inl err \<Rightarrow> Inl err
                       | Inr (p', np') \<Rightarrow>
                           Inr (without_pillars d,
                                st1\<lparr>rs_data := (rs_data st1)\<lparr>sd_pillar := p'\<rparr>\<rparr>))
                    else Inr (d, st1))))"

text \<open>
  \<^verbatim>\<open>expand_classes_in_order(minion_dict, salt_data, seen_classes, classes_to_expand)\<close>
  and its loop over the class names. The first argument bounds the depth of the
  recursion through nested \<^verbatim>\<open>classes\<close> lists: \<open>None\<close> means that the bound was reached
  before the expansion returned.
\<close>

fun expand_classes_in_order ::
    "env \<Rightarrow> nat \<Rightarrow> dict \<Rightarrow> run_state \<Rightarrow> val \<Rightarrow> (error + ((string \<times> dict) list \<times> run_state)) option"
  and expand_loop ::
    "env \<Rightarrow> nat \<Rightarrow> string list \<Rightarrow> (string \<times> dict) list \<Rightarrow> run_state
       \<Rightarrow> (error + ((string \<times> dict) list \<times> run_state)) option" where
  "expand_classes_in_order e 0 minion_dict st classes_to_expand = None"
| "expand_classes_in_order e (Suc n) minion_dict st classes_to_expand =
     (case expand_classes_glob e
             (if \<not> truthy classes_to_expand \<and> map_of minion_dict ''classes'' \<noteq> None
              then the (map_of minion_dict ''classes'') else classes_to_expand) st of
        Inl err \<Rightarrow> Some (Inl err)
      | Inr (names, st1) \<Rightarrow>
          (case expand_loop e n names [] st1 of
             None \<Rightarrow> None
           | Some (Inl err) \<Rightarrow> Some (Inl err)
           | Some (Inr (expanded_classes, st2)) \<Rightarrow>
               Some (Inr (if minion_dict \<noteq> []
                          then dict_set expanded_classes (sd_minion_id (rs_data st2)) minion_dict
                          else expanded_classes, st2))))"
| "expand_loop e n [] expanded_classes st = Some (Inr (expanded_classes, st))"
| "expand_loop e n (klass # rest) expanded_classes st =
     (if klass \<in> set (rs_seen st) then expand_loop e n rest expanded_classes st
      else
        (case load_class e klass (st\<lparr>rs_seen := rs_seen st @ [klass]\<rparr>) of
           Inl err \<Rightarrow> Some (Inl err)
         | Inr (doc, st1) \<Rightarrow>
             (case (if map_of doc ''classes'' \<noteq> None then
                      (case expand_classes_in_order e n [] st1 (the (map_of doc ''classes'')) of
                         None \<Rightarrow> None
                       | Some (Inl err) \<Rightarrow> Some (Inl err)
                       | Some (Inr (nested_classes, st2)) \<Rightarrow>
                           Some (Inr (move_to_end (od_update [(klass, doc)] nested_classes) klass,
                                      st2)))
                    else Some (Inr ([(klass, doc)], st1))) of
                None \<Rightarrow> None
              | Some (Inl err) \<Rightarrow> Some (Inl err)
              | Some (Inr (klass_dict, st3)) \<Rightarrow>
                  expand_loop e n rest (od_update expanded_classes klass_dict) st3)))"

section \<open>Output Composer\<close>

text \<open>\<^verbatim>\<open>classes_list = list(expanded_classes.keys())[:-1]\<close>: every key of the expansion
  but the last.\<close>

definition classes_list :: "(string \<times> dict) list \<Rightarrow> string list" where
  "classes_list expanded_classes = butlast (map fst expanded_classes)"

text \<open>What \<^verbatim>\<open>dict_search_and_replace\<close> does to the value of a mapping and to an element of
  a sequence.\<close>

definition replace_value :: "string \<Rightarrow> string \<Rightarrow> val \<Rightarrow> val" where
  "replace_value old new v =
     (if is_dict v then VDict (dict_search_and_replace (the_dict v) old new)
      else if is_list v then VList (replace_in_list (the_list v) old new)
      else if v = VStr old then VStr new
      else v)"

definition replace_elem :: "string \<Rightarrow> string \<Rightarrow> val \<Rightarrow> val" where
  "replace_elem old new i =
     (if is_dict i then VDict (dict_search_and_replace (the_dict i) old new)
      else if is_str i \<and> i = VStr old then VStr new
      else i)"

text \<open>The places that the search reaches: a path in which no index step follows an index
  step directly (the flag says that the previous step was an index).\<close>

fun searched :: "bool \<Rightarrow> pstep list \<Rightarrow> bool" where
  "searched after_idx [] = True"
| "searched after_idx (PKey k # ps) = searched False ps"
| "searched after_idx (PIdx i # ps) = (\<not> after_idx \<and> searched True ps)"

text \<open>A reference path with a segment that is absent: descending through mappings, a
  segment is not a key of the mapping reached, or \<^verbatim>\<open>None\<close> is reached before the end.\<close>

fun segment_absent :: "val \<Rightarrow> string list \<Rightarrow> bool" where
  "segment_absent a [] = False"
| "segment_absent a (i # rest) =
     (case a of
        VNone \<Rightarrow> True
      | VDict d \<Rightarrow>
          (case map_of d i of None \<Rightarrow> True | Some a' \<Rightarrow> segment_absent a' rest)
      | _ \<Rightarrow> False)"

text \<open>The token of a match: the match itself when it starts with the dollar sign, the
  match without its leading character otherwise (\<^verbatim>\<open>re_str[1:]\<close>).\<close>

definition token_of :: "string \<Rightarrow> string" where
  "token_of m = (if startswith ''$'' m then m else tl m)"

text \<open>Matches that are tokens and nothing else: none starts with a backslash, and none
  but the first starts with a dollar sign (a token at the start of the string; later, a
  token that follows a dollar sign).\<close>

definition plain_matches :: "string list \<Rightarrow> bool" where
  "plain_matches ms \<longleftrightarrow>
     list_all (\<lambda>m. \<not> startswith [backslash] m) ms
     \<and> list_all (\<lambda>m. \<not> startswith ''$'' m) (tl ms)"

text \<open>
  The substitution as the specification words it, token after token: the reference is
  looked up in the tree, the string found is substituted for the token in the current
  string, and every string of the tree equal to the current string is replaced by the
  new one. \<open>None\<close> when a reference does not give a string.
\<close>

fun spec_substitute :: "string list \<Rightarrow> string \<Rightarrow> dict \<Rightarrow> (string \<times> dict) option" where
  "spec_substitute [] s b = Some (s, b)"
| "spec_substitute (m # ms) s b =
     (case find_value_to_expand b (token_of m) of
        Inr (VStr r) \<Rightarrow>
          (let s' = str_replace (token_of m) r s
           in spec_substitute ms s' (dict_search_and_replace b s s'))
      | _ \<Rightarrow> None)"

section \<open>Notions used to state the properties of the merge\<close>

text \<open>A document as Python holds it: the keys of every mapping are distinct.\<close>

fun wf_val :: "val \<Rightarrow> bool" where
  "wf_val (VDict d) = (distinct (map fst d) \<and> list_all (\<lambda>(k, v). wf_val v) d)"
| "wf_val (VList xs) = list_all wf_val xs"
| "wf_val v = True"

text \<open>
  The precondition of the merge: wherever the loop of \<^verbatim>\<open>dict_merge\<close> finds a sequence on
  both sides, at the top or in mappings that it merges recursively, the sequence of \<open>b\<close>
  is not empty (line 125 reads \<^verbatim>\<open>b[key][0]\<close>).
\<close>

function no_empty_clash :: "dict \<Rightarrow> dict \<Rightarrow> bool" where
  "no_empty_clash a [] = True"
| "no_empty_clash a ((key, bv) # rest) =
     ((case map_of a key of
         None \<Rightarrow> True
       | Some av \<Rightarrow>
           if is_list av \<and> is_list bv then the_list bv \<noteq> []
           else if is_dict av \<and> is_dict bv then no_empty_clash (the_dict av) (the_dict bv)
           else True)
      \<and> no_empty_clash a rest)"
  by pat_completeness auto
termination
  apply (relation "measure (\<lambda>(a, b). size (VDict b))")
    apply simp
  subgoal for a key bv rest av by (cases bv) auto
  subgoal by simp
  done

section \<open>Notions used to state the properties of the expansion\<close>

text \<open>The class names that a \<^verbatim>\<open>classes\<close> value expands to, and those that a document
  includes.\<close>

definition glob_names :: "env \<Rightarrow> string \<Rightarrow> val \<Rightarrow> string list" where
  "glob_names e p classes =
     (case class_names classes of
        Inl err \<Rightarrow> []
      | Inr names \<Rightarrow> dedup_into [] (concat (map (\<lambda>cls. fst (match_class_glob e cls p)) names)))"

definition class_list :: "env \<Rightarrow> string \<Rightarrow> dict \<Rightarrow> string list" where
  "class_list e p d = (case map_of d ''classes'' of None \<Rightarrow> [] | Some c \<Rightarrow> glob_names e p c)"

text \<open>
  The order of an expansion: every class that a document includes was seen before the
  expansion started (\<open>S\<close>), or has its entry before the entry of the document, or is
  the class itself, or has its entry later and includes classes of its own (it was still
  being expanded when the document was loaded).
\<close>

fun ordered_from :: "env \<Rightarrow> string \<Rightarrow> string list \<Rightarrow> (string \<times> dict) list \<Rightarrow> bool" where
  "ordered_from e p S [] = True"
| "ordered_from e p S ((Q, dQ) # post) =
     (list_all (\<lambda>C. C \<in> set S \<or> C = Q
                  \<or> list_ex (\<lambda>(C', dC). C' = C \<and> map_of dC ''classes'' \<noteq> None) post)
               (class_list e p dQ)
      \<and> ordered_from e p (Q # S) post)"

text \<open>Every class name that the glob expander can return for this storage.\<close>

definition class_universe :: "env \<Rightarrow> string \<Rightarrow> string set" where
  "class_universe e p = (\<Union>pat. (\<lambda>f. get_class_from_file f p) ` set (glob e pat))"

text \<open>What one run of the expansion, from the state \<open>st\<close> to the state \<open>st'\<close>, does
  with the new entries \<open>new\<close>.\<close>

definition expansion_inv :: "env \<Rightarrow> run_state \<Rightarrow> (string \<times> dict) list \<Rightarrow> run_state \<Rightarrow> bool" where
  "expansion_inv e st new st' \<longleftrightarrow>
     sd_path (rs_data st') = sd_path (rs_data st) \<and>
     sd_minion_id (rs_data st') = sd_minion_id (rs_data st) \<and>
     distinct (map fst new) \<and>
     set (map fst new) \<inter> set (rs_seen st) = {} \<and>
     set (rs_seen st') = set (rs_seen st) \<union> set (map fst new) \<and>
     (distinct (rs_seen st) \<longrightarrow> distinct (rs_seen st')) \<and>
     set (map fst new) \<subseteq> class_universe e (sd_path (rs_data st)) \<and>
     ordered_from e (sd_path (rs_data st)) (rs_seen st) new"

text \<open>The \<^verbatim>\<open>classes_to_expand\<close> that \<^verbatim>\<open>expand_classes_in_order\<close> works on.\<close>

definition effective_classes :: "dict \<Rightarrow> val \<Rightarrow> val" where
  "effective_classes minion_dict classes_to_expand =
     (if \<not> truthy classes_to_expand \<and> map_of minion_dict ''classes'' \<noteq> None
      then the (map_of minion_dict ''classes'') else classes_to_expand)"


section \<open>Example storage trees\<close>

text \<open>A root \<^verbatim>\<open>/srv\<close> whose node tree holds two files for the node \<^verbatim>\<open>n\<close>, in the
  order in which the walk reaches them, and no classes.\<close>

definition ex_dup_walk :: "string \<Rightarrow> (string \<times> string list \<times> string list) list" where
  "ex_dup_walk dir =
     (if dir = ''/srv/nodes'' then
        [(''/srv/nodes'', [''a'', ''b''], []),
         (''/srv/nodes/a'', [], [''n.yml'']),
         (''/srv/nodes/b'', [], [''n.yml''])]
      else [])"

definition ex_no_glob :: "string \<Rightarrow> string list" where
  "ex_no_glob pattern = []"

definition ex_render_none :: "string \<Rightarrow> salt_data \<Rightarrow> error + val" where
  "ex_render_none file sd = Inr VNone"

definition ex_dup_env :: env where
  "ex_dup_env = \<lparr>os_walk = ex_dup_walk, glob = ex_no_glob, render_yaml = ex_render_none\<rparr>"

definition ex_data :: "string \<Rightarrow> salt_data" where
  "ex_data minion_id = \<lparr>sd_path = ''/srv'', sd_minion_id = minion_id, sd_pillar = []\<rparr>"

definition ex_state :: "string \<Rightarrow> run_state" where
  "ex_state minion_id = \<lparr>rs_data = ex_data minion_id, rs_seen = [], rs_log = []\<rparr>"

text \<open>
  A storage tree below \<^verbatim>\<open>/srv\<close> with one flat file per class and one file per node, given
  by the documents that the files render to. The glob matcher knows literal patterns.
\<close>

definition ex_class_file :: "string \<Rightarrow> string" where
  "ex_class_file name = ''/srv/classes/'' @ name @ ''.yml''"

definition ex_node_file :: "string \<Rightarrow> string" where
  "ex_node_file name = ''/srv/nodes/'' @ name @ ''.yml''"

definition flat_walk ::
  "(string \<times> val) list \<Rightarrow> (string \<times> val) list \<Rightarrow> string
     \<Rightarrow> (string \<times> string list \<times> string list) list" where
  "flat_walk classes nodes dir =
     (if dir = ''/srv/classes'' then [(''/srv/classes'', [], map (\<lambda>(n, d). n @ ''.yml'') classes)]
      else if dir = ''/srv/nodes'' then [(''/srv/nodes'', [], map (\<lambda>(n, d). n @ ''.yml'') nodes)]
      else [])"

definition flat_glob :: "(string \<times> val) list \<Rightarrow> string \<Rightarrow> string list" where
  "flat_glob classes pattern =
     (if pattern \<in> set (map (\<lambda>(n, d). ex_class_file n) classes) then [pattern] else [])"

definition flat_render ::
  "(string \<times> val) list \<Rightarrow> (string \<times> val) list \<Rightarrow> string \<Rightarrow> salt_data \<Rightarrow> error + val" where
  "flat_render classes nodes file sd =
     (case map_of (map (\<lambda>(n, d). (ex_class_file n, d)) classes
                   @ map (\<lambda>(n, d). (ex_node_file n, d)) nodes) file of
        Some d \<Rightarrow> Inr d
      | None \<Rightarrow> Inl (UpstreamError file))"

definition flat_env :: "(string \<times> val) list \<Rightarrow> (string \<times> val) list \<Rightarrow> env" where
  "flat_env classes nodes =
     \<lparr>os_walk = flat_walk classes nodes, glob = flat_glob classes,
      render_yaml = flat_render classes nodes\<rparr>"

text \<open>A class \<^verbatim>\<open>P\<close> that includes a class \<^verbatim>\<open>C\<close>, and a node \<^verbatim>\<open>n\<close> that includes \<^verbatim>\<open>P\<close>.\<close>

definition ex_class_P :: "string \<times> val" where
  "ex_class_P = (''P'', VDict [(''classes'', VList [VStr ''C'']),
                               (''pillars'', VDict [(''k'', VStr ''p'')])])"

definition ex_class_C :: "string \<times> val" where
  "ex_class_C = (''C'', VDict [(''pillars'', VDict [(''k'', VStr ''c'')])])"

definition ex_nest_doc :: dict where
  "ex_nest_doc = [(''classes'', VList [VStr ''P''])]"

definition ex_nest_env :: env where
  "ex_nest_env = flat_env [ex_class_P, ex_class_C] [(''n'', VDict ex_nest_doc)]"

text \<open>A class tree with one file, \<^verbatim>\<open>classes/a.b/c.yml\<close>, in a directory whose name holds a
  dot. The pattern \<^verbatim>\<open>*.c\<close> finds the file (as \<^verbatim>\<open>classes/*/c.yml\<close>), which is named back
  \<^verbatim>\<open>a.b.c\<close>; none of the three paths of the class \<^verbatim>\<open>a.b.c\<close> is that file. No file matches
  the name \<^verbatim>\<open>ghost\<close>.\<close>

definition ex_miss_walk :: "string \<Rightarrow> (string \<times> string list \<times> string list) list" where
  "ex_miss_walk dir =
     (if dir = ''/srv/classes''
      then [(''/srv/classes'', [''a.b''], []), (''/srv/classes/a.b'', [], [''c.yml''])]
      else [])"

definition ex_miss_glob :: "string \<Rightarrow> string list" where
  "ex_miss_glob pattern =
     (if pattern = ''/srv/classes/*/c.yml'' then [''/srv/classes/a.b/c.yml'']
      else if pattern = ''/srv/classes/a.b/c.yml'' then [''/srv/classes/a.b/c.yml'']
      else [])"

definition ex_miss_env :: env where
  "ex_miss_env = \<lparr>os_walk = ex_miss_walk, glob = ex_miss_glob, render_yaml = ex_render_none\<rparr>"

definition ex_miss_doc :: dict where
  "ex_miss_doc = [(''classes'', VList [VStr ''*.c'', VStr ''ghost''])]"

text \<open>A pillar tree in which a string with two tokens is the value of a key and an element
  of a sequence.\<close>

definition ex_url_tree :: dict where
  "ex_url_tree = [(''host'', VStr ''h''), (''port'', VStr ''80''),
                  (''url'', VStr ''http://${host}:${port}/''),
                  (''all'', VList [VStr ''http://${host}:${port}/''])]"

text \<open>A node whose id is also the name of a class: the node \<^verbatim>\<open>a\<close> includes the classes \<^verbatim>\<open>a\<close>
  and \<^verbatim>\<open>b\<close>.\<close>

definition ex_clash_doc :: dict where
  "ex_clash_doc = [(''classes'', VList [VStr ''a'', VStr ''b''])]"

definition ex_clash_env :: env where
  "ex_clash_env =
     flat_env [(''a'', VDict [(''states'', VList [VStr ''sa''])]),
               (''b'', VDict [(''states'', VList [VStr ''sb''])])]
              [(''a'', VDict ex_clash_doc)]"





section \<open>Properties of the merge\<close>

lemma dict_merge_items_Cons:
  "dict_merge_items a ((key, bv) # rest) =
     (case merge_item a key bv of
        Inl e \<Rightarrow> Inl e
      | Inr (a1, bv1) \<Rightarrow>
          (case dict_merge_items a1 rest of
             Inl e \<Rightarrow> Inl e
           | Inr (a', rest') \<Rightarrow> Inr (a', (key, bv1) # rest')))"
  unfolding merge_item_def by (subst dict_merge_items.simps) (rule refl)

lemma map_of_dict_set:
  "map_of (dict_set a k v) k' = (if k' = k then Some v else map_of a k')"
  by (induction a k v rule: dict_set.induct) auto

lemma merge_item_other:
  "merge_item a key bv = Inr (a1, bv1) \<Longrightarrow> k \<noteq> key \<Longrightarrow> map_of a1 k = map_of a k"
  unfolding merge_item_def
  by (auto simp: map_of_dict_set split: option.splits val.splits list.splits if_splits sum.splits)

lemma dict_merge_items_step:
  assumes "dict_merge_items a ((key, bv) # rest) = Inr (a', b')"
  obtains a1 bv1 rest' where "merge_item a key bv = Inr (a1, bv1)"
    and "dict_merge_items a1 rest = Inr (a', rest')" and "b' = (key, bv1) # rest'"
  using assms unfolding dict_merge_items_Cons by (auto split: sum.splits)

lemma dict_merge_items_other:
  "dict_merge_items a b = Inr (a', b') \<Longrightarrow> k \<notin> fst ` set b \<Longrightarrow> map_of a' k = map_of a k"
proof (induction b arbitrary: a a' b')
  case Nil
  then show ?case by simp
next
  case (Cons kv rest)
  obtain key bv where kv: "kv = (key, bv)" by (cases kv)
  from Cons.prems(1) obtain a1 bv1 rest' where
    m: "merge_item a key bv = Inr (a1, bv1)" and r: "dict_merge_items a1 rest = Inr (a', rest')"
    unfolding kv by (rule dict_merge_items_step)
  from Cons.prems(2) have "k \<noteq> key" "k \<notin> fst ` set rest" unfolding kv by auto
  then show ?case using Cons.IH[OF r] merge_item_other[OF m] by simp
qed

lemma merge_item_lists:
  "merge_item a key (VList ys) = Inr (a1, bv1) \<Longrightarrow> map_of a key = Some (VList xs) \<Longrightarrow>
   ys \<noteq> [] \<and> map_of a1 key = Some (VList (if hd ys = VStr ''^'' then tl ys else xs @ ys))"
  unfolding merge_item_def
  by (auto simp: map_of_dict_set split: list.splits if_splits)

lemma dict_merge_items_lists:
  "dict_merge_items a b = Inr (a', b') \<Longrightarrow> distinct (map fst b) \<Longrightarrow>
   map_of b k = Some (VList ys) \<Longrightarrow> map_of a k = Some (VList xs) \<Longrightarrow>
   ys \<noteq> [] \<and> map_of a' k = Some (VList (if hd ys = VStr ''^'' then tl ys else xs @ ys))"
proof (induction b arbitrary: a a' b')
  case Nil
  then show ?case by simp
next
  case (Cons kv rest)
  obtain key bv where kv: "kv = (key, bv)" by (cases kv)
  from Cons.prems(1) obtain a1 bv1 rest' where
    m: "merge_item a key bv = Inr (a1, bv1)" and r: "dict_merge_items a1 rest = Inr (a', rest')"
    unfolding kv by (rule dict_merge_items_step)
  from Cons.prems(2) have d: "key \<notin> fst ` set rest" "distinct (map fst rest)"
    unfolding kv by auto
  show ?case
  proof (cases "k = key")
    case True
    with Cons.prems(3) have bv: "bv = VList ys" unfolding kv by simp
    from merge_item_lists[OF m[unfolded bv]] Cons.prems(4) True
    have "ys \<noteq> []"
      "map_of a1 key = Some (VList (if hd ys = VStr ''^'' then tl ys else xs @ ys))"
      by auto
    moreover have "map_of a' key = map_of a1 key"
      using dict_merge_items_other[OF r d(1)] .
    ultimately show ?thesis using True by simp
  next
    case False
    with Cons.prems(3) have "map_of rest k = Some (VList ys)" unfolding kv by simp
    moreover have "map_of a1 k = Some (VList xs)"
      using merge_item_other[OF m False] Cons.prems(4) by simp
    ultimately show ?thesis using Cons.IH[OF r d(2)] by simp
  qed
qed

lemma dict_merge_items_error: "dict_merge_items a b = Inl e \<Longrightarrow> e = IndexError"
proof (induction a b arbitrary: e rule: dict_merge_items.induct)
  case (1 a)
  then show ?case by simp
next
  case (2 a key bv rest)
  show ?case
  proof (cases "merge_item a key bv")
    case (Inl e')
    with "2.prems" have e: "e = e'" unfolding dict_merge_items_Cons by simp
    from Inl have "e' = IndexError"
      unfolding merge_item_def using "2.IH"(1)
      by (auto split: option.splits val.splits list.splits if_splits sum.splits)
    with e show ?thesis by simp
  next
    case (Inr p)
    obtain a1 bv1 where p: "p = (a1, bv1)" by (cases p)
    from "2.prems" Inr p have r: "dict_merge_items a1 rest = Inl e"
      unfolding dict_merge_items_Cons by (auto split: sum.splits)
    from Inr p have m: "merge_item a key bv = Inr (a1, bv1)" by simp
    show ?thesis
      using "2.IH"(2)[of "(a1, bv1)" a1 bv1 e] m r by (simp add: merge_item_def)
  qed
qed

lemma dict_merge_items_empty_list:
  "distinct (map fst b) \<Longrightarrow> map_of b k = Some (VList []) \<Longrightarrow>
   map_of a k = Some (VList xs) \<Longrightarrow> dict_merge_items a b = Inl IndexError"
proof (induction b arbitrary: a)
  case Nil
  then show ?case by simp
next
  case (Cons kv rest)
  obtain key bv where kv: "kv = (key, bv)" by (cases kv)
  show ?case
  proof (cases "k = key")
    case True
    with Cons.prems(2) have "bv = VList []" unfolding kv by simp
    with Cons.prems(3) True have "merge_item a key bv = Inl IndexError"
      unfolding merge_item_def by simp
    then show ?thesis unfolding kv dict_merge_items_Cons by simp
  next
    case False
    show ?thesis
    proof (cases "merge_item a key bv")
      case (Inl e)
      then have "dict_merge_items a (kv # rest) = Inl e"
        unfolding kv dict_merge_items_Cons by simp
      then show ?thesis using dict_merge_items_error by blast
    next
      case (Inr p)
      obtain a1 bv1 where p: "p = (a1, bv1)" by (cases p)
      have "map_of a1 k = Some (VList xs)"
        using merge_item_other[OF Inr[unfolded p] False] Cons.prems(3) by simp
      moreover from Cons.prems(1,2) False have "distinct (map fst rest)"
        "map_of rest k = Some (VList [])" unfolding kv by auto
      ultimately have "dict_merge_items a1 rest = Inl IndexError"
        using Cons.IH by blast
      then show ?thesis using Inr p unfolding kv dict_merge_items_Cons by simp
    qed
  qed
qed

lemma no_empty_clash_cong:
  "(\<And>k. k \<in> fst ` set b \<Longrightarrow> map_of a k = map_of a2 k) \<Longrightarrow>
   no_empty_clash a b = no_empty_clash a2 b"
proof (induction b)
  case Nil
  then show ?case by simp
next
  case (Cons kv rest)
  obtain key bv where kv: "kv = (key, bv)" by (cases kv)
  have 1: "map_of a key = map_of a2 key" using Cons.prems[of key] by (simp add: kv)
  have 2: "no_empty_clash a rest = no_empty_clash a2 rest"
    by (rule Cons.IH) (simp add: Cons.prems kv)
  show ?case unfolding kv by (simp add: 1 2)
qed

lemma merge_returns:
  "wf_val (VDict b) \<Longrightarrow> no_empty_clash a b \<Longrightarrow> \<exists>a' b'. dict_merge_items a b = Inr (a', b')"
proof (induction a b rule: dict_merge_items.induct)
  case (1 a)
  then show ?case by simp
next
  case (2 a key bv rest)
  from "2.prems"(1) have wbv: "wf_val bv" and wrest: "wf_val (VDict rest)"
    and kr: "key \<notin> fst ` set rest" by (auto simp: list_all_iff)
  from "2.prems"(2) have nr: "no_empty_clash a rest" by simp
  have "\<exists>a1 bv1. merge_item a key bv = Inr (a1, bv1)"
  proof (cases "map_of a key")
    case None
    then show ?thesis unfolding merge_item_def by simp
  next
    case (Some av)
    show ?thesis
    proof (cases "is_list av \<and> is_list bv")
      case True
      with "2.prems"(2) Some have "the_list bv \<noteq> []" by simp
      with True Some show ?thesis unfolding merge_item_def
        by (auto split: list.splits)
    next
      case nl: False
      show ?thesis
      proof (cases "is_dict av \<and> is_dict bv")
        case True
        with "2.prems"(2) Some nl have n: "no_empty_clash (the_dict av) (the_dict bv)" by simp
        from True wbv have w: "wf_val (VDict (the_dict bv))" by (cases bv) auto
        from "2.IH"(1)[OF Some nl True w n] obtain ad' bd' where
          "dict_merge_items (the_dict av) (the_dict bv) = Inr (ad', bd')" by blast
        with True nl Some show ?thesis unfolding merge_item_def by auto
      next
        case False
        with nl Some show ?thesis unfolding merge_item_def by auto
      qed
    qed
  qed
  then obtain a1 bv1 where m: "merge_item a key bv = Inr (a1, bv1)" by blast
  have "no_empty_clash a1 rest = no_empty_clash a rest"
  proof (rule no_empty_clash_cong)
    fix k assume "k \<in> fst ` set rest"
    with kr have "k \<noteq> key" by auto
    from merge_item_other[OF m this] show "map_of a1 k = map_of a k" .
  qed
  with nr have n1: "no_empty_clash a1 rest" by simp
  have m': "(case map_of a key of None \<Rightarrow> Inr (dict_set a key bv, bv)
      | Some av \<Rightarrow>
          if is_list av \<and> is_list bv
          then case the_list bv of [] \<Rightarrow> Inl IndexError
               | y # ys' \<Rightarrow>
                   if y = VStr ''^'' then Inr (dict_set a key (VList ys'), VList ys')
                   else Inr (dict_set a key (VList (the_list av @ the_list bv)), bv)
          else if is_dict av \<and> is_dict bv
               then case dict_merge_items (the_dict av) (the_dict bv) of Inl e \<Rightarrow> Inl e
                    | Inr (ad', bd') \<Rightarrow> Inr (dict_set a key (VDict ad'), VDict bd')
               else if py_eq av bv then Inr (a, bv) else Inr (dict_set a key bv, bv)) = Inr (a1, bv1)"
    using m unfolding merge_item_def .
  from "2.IH"(2)[OF m' refl wrest n1] obtain a' rest' where
    "dict_merge_items a1 rest = Inr (a', rest')" by blast
  with m show ?case unfolding dict_merge_items_Cons by simp
qed

text \<open>
  Claim C3. When \<open>a\<close> and \<open>b\<close> hold sequences under the same key, and \<open>b\<close> holds no empty
  sequence where the merge meets a sequence of \<open>a\<close>, the merge returns and \<open>a\<close> ends with
  its own sequence extended by that of \<open>b\<close>, unless the sequence of \<open>b\<close> starts with the
  sentinel \<^verbatim>\<open>"^"\<close>: then \<open>a\<close> holds the rest of the sequence of \<open>b\<close> instead.
\<close>

theorem dict_merge_sequences:
  assumes "wf_val (VDict b)"
    and "no_empty_clash a b"
    and "map_of a k = Some (VList xs)"
    and "map_of b k = Some (VList ys)"
  shows "\<exists>a' b'. dict_merge a (VDict b) = Inr (a', b')
           \<and> map_of a' k = Some (VList (if hd ys = VStr ''^'' then tl ys else xs @ ys))"
proof -
  from merge_returns[OF assms(1,2)] obtain a' items' where
    r: "dict_merge_items a b = Inr (a', items')" by blast
  from assms(1) have "distinct (map fst b)" by simp
  from dict_merge_items_lists[OF r this assms(4,3)] r show ?thesis
    by (simp add: dict_merge_def)
qed

text \<open>The two merges of the specification: with the sentinel the sequence of \<open>a\<close> is
  replaced, without it the sequence is extended.\<close>

theorem dict_merge_sequences_witness:
  "wf_val (VDict [(''x'', VList [VStr ''^'', VStr ''a'', VStr ''b''])])
   \<and> no_empty_clash [(''x'', VList [VStr ''p'', VStr ''q''])]
        [(''x'', VList [VStr ''^'', VStr ''a'', VStr ''b''])]
   \<and> wf_val (VDict [(''x'', VList [VStr ''a'', VStr ''b''])])
   \<and> no_empty_clash [(''x'', VList [VStr ''p'', VStr ''q''])]
        [(''x'', VList [VStr ''a'', VStr ''b''])]
   \<and> (\<exists>a' b'. dict_merge [(''x'', VList [VStr ''p'', VStr ''q''])]
              (VDict [(''x'', VList [VStr ''^'', VStr ''a'', VStr ''b''])]) = Inr (a', b')
          \<and> map_of a' ''x'' = Some (VList [VStr ''a'', VStr ''b'']))
   \<and> (\<exists>a' b'. dict_merge [(''x'', VList [VStr ''p'', VStr ''q''])]
              (VDict [(''x'', VList [VStr ''a'', VStr ''b''])]) = Inr (a', b')
          \<and> map_of a' ''x'' = Some (VList [VStr ''p'', VStr ''q'', VStr ''a'', VStr ''b'']))
   \<and> dict_merge [(''x'', VList [VStr ''p'', VStr ''q''])]
              (VDict [(''x'', VList [VStr ''^'', VStr ''a'', VStr ''b''])])
     = Inr ([(''x'', VList [VStr ''a'', VStr ''b''])], VDict [(''x'', VList [VStr ''a'', VStr ''b''])])
   \<and> dict_merge [(''x'', VList [VStr ''p'', VStr ''q''])]
              (VDict [(''x'', VList [VStr ''a'', VStr ''b''])])
     = Inr ([(''x'', VList [VStr ''p'', VStr ''q'', VStr ''a'', VStr ''b''])],
            VDict [(''x'', VList [VStr ''a'', VStr ''b''])])"
proof -
  have w1: "wf_val (VDict [(''x'', VList [VStr ''^'', VStr ''a'', VStr ''b''])])" by simp
  have n1: "no_empty_clash [(''x'', VList [VStr ''p'', VStr ''q''])]
        [(''x'', VList [VStr ''^'', VStr ''a'', VStr ''b''])]" by simp
  have w2: "wf_val (VDict [(''x'', VList [VStr ''a'', VStr ''b''])])" by simp
  have n2: "no_empty_clash [(''x'', VList [VStr ''p'', VStr ''q''])]
        [(''x'', VList [VStr ''a'', VStr ''b''])]" by simp
  have e1: "dict_merge [(''x'', VList [VStr ''p'', VStr ''q''])]
              (VDict [(''x'', VList [VStr ''^'', VStr ''a'', VStr ''b''])])
     = Inr ([(''x'', VList [VStr ''a'', VStr ''b''])], VDict [(''x'', VList [VStr ''a'', VStr ''b''])])"
    by (simp add: dict_merge_def)
  have e2: "dict_merge [(''x'', VList [VStr ''p'', VStr ''q''])]
              (VDict [(''x'', VList [VStr ''a'', VStr ''b''])])
     = Inr ([(''x'', VList [VStr ''p'', VStr ''q'', VStr ''a'', VStr ''b''])],
            VDict [(''x'', VList [VStr ''a'', VStr ''b''])])"
    by (simp add: dict_merge_def)
  from dict_merge_sequences[OF w1 n1, where k = "''x''" and xs = "[VStr ''p'', VStr ''q'']"
      and ys = "[VStr ''^'', VStr ''a'', VStr ''b'']"]
  have r1: "\<exists>a' b'. dict_merge [(''x'', VList [VStr ''p'', VStr ''q''])]
              (VDict [(''x'', VList [VStr ''^'', VStr ''a'', VStr ''b''])]) = Inr (a', b')
          \<and> map_of a' ''x'' = Some (VList [VStr ''a'', VStr ''b''])"
    by simp
  from dict_merge_sequences[OF w2 n2, where k = "''x''" and xs = "[VStr ''p'', VStr ''q'']"
      and ys = "[VStr ''a'', VStr ''b'']"]
  have r2: "\<exists>a' b'. dict_merge [(''x'', VList [VStr ''p'', VStr ''q''])]
              (VDict [(''x'', VList [VStr ''a'', VStr ''b''])]) = Inr (a', b')
          \<and> map_of a' ''x'' = Some (VList [VStr ''p'', VStr ''q'', VStr ''a'', VStr ''b''])"
    by simp
  from w1 n1 w2 n2 r1 r2 e1 e2 show ?thesis by blast
qed

text \<open>With the empty sequence in \<open>b\<close> the sequence of \<open>a\<close> is not extended: the merge
  returns no tree.\<close>

theorem dict_merge_sequences_empty_counterexample:
  "dict_merge [(''x'', VList [VStr ''p'', VStr ''q''])] (VDict [(''x'', VList [])])
     = Inl IndexError"
  by (simp add: dict_merge_def)

text \<open>
  Claim C10. The merge is not total: whenever \<open>a\<close> holds a sequence under a key for which
  \<open>b\<close> holds the empty sequence, \<^verbatim>\<open>dict_merge\<close> fails with the IndexError of reading the
  first element of that empty sequence, and returns no merged tree.
\<close>

theorem dict_merge_empty_sequence_fails:
  assumes "distinct (map fst b)"
    and "map_of a k = Some (VList xs)"
    and "map_of b k = Some (VList [])"
  shows "dict_merge a (VDict b) = Inl IndexError"
  using dict_merge_items_empty_list[OF assms(1) assms(3) assms(2)]
  by (simp add: dict_merge_def)

theorem dict_merge_empty_sequence_fails_witness:
  "distinct (map fst [(''x'', VList [])])
   \<and> map_of [(''x'', VList [VStr ''p''])] ''x'' = Some (VList [VStr ''p''])
   \<and> map_of [(''x'', VList [])] ''x'' = Some (VList [])
   \<and> dict_merge [(''x'', VList [VStr ''p''])] (VDict [(''x'', VList [])]) = Inl IndexError"
  using dict_merge_empty_sequence_fails[of "[(''x'', VList [])]" "[(''x'', VList [VStr ''p''])]" "''x''" "[VStr ''p'']"]
  by simp

section \<open>Properties of the loaders\<close>

text \<open>
  Claim C8. When none of the three candidate paths of a class is among the files
  enumerated below \<^verbatim>\<open>classes/\<close>, the class loader returns the empty document and logs one
  warning; it does not fail. In a resolution such a class is not fatal either: the loop
  of the expansion goes on with the rest of the names, the class being entered with the
  empty document and marked as seen. A name that matches no file at all does not reach
  the loader: the glob expander drops it with a warning of its own.
\<close>

theorem missing_class_not_fatal:
  assumes "get_class_paths cls (sd_path (rs_data st)) = (straight, sub_init, sub_straight)"
    and "straight \<notin> set (walk_files e (path_join (sd_path (rs_data st)) [''classes'']))"
    and "sub_straight \<notin> set (walk_files e (path_join (sd_path (rs_data st)) [''classes'']))"
    and "sub_init \<notin> set (walk_files e (path_join (sd_path (rs_data st)) [''classes'']))"
  shows "get_class e cls st =
           Inr (VDict [], st\<lparr>rs_log := rs_log st @ [cls @ '': Class definition not found'']\<rparr>)
       \<and> (cls \<notin> set (rs_seen st) \<longrightarrow>
            expand_loop e n (cls # rest) expanded_classes st =
              expand_loop e n rest (od_update expanded_classes [(cls, [])])
                (st\<lparr>rs_seen := rs_seen st @ [cls],
                    rs_log := rs_log st @ [cls @ '': Class definition not found'']\<rparr>))
       \<and> (glob e straight = [] \<and> glob e sub_straight = [] \<and> glob e sub_init = [] \<longrightarrow>
            expand_classes_glob e (VList [VStr cls]) st =
              Inr ([], st\<lparr>rs_log := rs_log st
                             @ [cls @ '': Class globbing did not yield any results'']\<rparr>))"
proof -
  have g: "get_class e cls st' =
           Inr (VDict [], st'\<lparr>rs_log := rs_log st' @ [cls @ '': Class definition not found'']\<rparr>)"
    if "rs_data st' = rs_data st" for st'
    using assms that by (simp add: get_class_def Let_def)
  have l: "load_class e cls st' =
           Inr ([], st'\<lparr>rs_log := rs_log st' @ [cls @ '': Class definition not found'']\<rparr>)"
    if "rs_data st' = rs_data st" for st'
    using g[OF that] by (simp add: load_class_def Let_def dict_get_def)
  have 1: "get_class e cls st =
           Inr (VDict [], st\<lparr>rs_log := rs_log st @ [cls @ '': Class definition not found'']\<rparr>)"
    by (rule g) simp
  have 2: "expand_loop e n (cls # rest) expanded_classes st =
              expand_loop e n rest (od_update expanded_classes [(cls, [])])
                (st\<lparr>rs_seen := rs_seen st @ [cls],
                    rs_log := rs_log st @ [cls @ '': Class definition not found'']\<rparr>)"
    if "cls \<notin> set (rs_seen st)"
    using that l[of "st\<lparr>rs_seen := rs_seen st @ [cls]\<rparr>"] by simp
  have 3: "expand_classes_glob e (VList [VStr cls]) st =
              Inr ([], st\<lparr>rs_log := rs_log st
                             @ [cls @ '': Class globbing did not yield any results'']\<rparr>)"
    if "glob e straight = [] \<and> glob e sub_straight = [] \<and> glob e sub_init = []"
    using that assms(1)
    by (simp add: expand_classes_glob_def class_names_def match_class_glob_def Let_def)
  from 1 2 3 show ?thesis by blast
qed

text \<open>The pattern \<^verbatim>\<open>*.c\<close> names the class \<^verbatim>\<open>a.b.c\<close>, which has no file at its three paths, and
  nothing matches \<^verbatim>\<open>ghost\<close>: the resolution of a node that includes both returns the
  class with the empty document, then the node, and two warnings.\<close>

theorem missing_class_not_fatal_witness:
  "get_class_paths ''a.b.c'' (sd_path (rs_data (ex_state ''n'')))
     = (''/srv/classes/a.b.c.yml'', ''/srv/classes/a/b/c/init.yml'', ''/srv/classes/a/b/c.yml'')
   \<and> walk_files ex_miss_env (path_join (sd_path (rs_data (ex_state ''n''))) [''classes''])
       = [''/srv/classes/a.b/c.yml'']
   \<and> get_class ex_miss_env ''a.b.c'' (ex_state ''n'')
       = Inr (VDict [], (ex_state ''n'')\<lparr>rs_log := [''a.b.c: Class definition not found'']\<rparr>)
   \<and> expand_loop ex_miss_env 0 [''a.b.c''] [] (ex_state ''n'')
       = Some (Inr ([(''a.b.c'', [])],
                    (ex_state ''n'')\<lparr>rs_seen := [''a.b.c''],
                                      rs_log := [''a.b.c: Class definition not found'']\<rparr>))
   \<and> get_class_paths ''ghost'' (sd_path (rs_data (ex_state ''n'')))
     = (''/srv/classes/ghost.yml'', ''/srv/classes/ghost/init.yml'', ''/srv/classes/ghost.yml'')
   \<and> expand_classes_glob ex_miss_env (VList [VStr ''ghost'']) (ex_state ''n'')
       = Inr ([], (ex_state ''n'')\<lparr>rs_log := [''ghost: Class globbing did not yield any results'']\<rparr>)
   \<and> expand_classes_in_order ex_miss_env 2 ex_miss_doc (ex_state ''n'') (VList [])
       = Some (Inr ([(''a.b.c'', []), (''n'', ex_miss_doc)],
                    (ex_state ''n'')\<lparr>rs_seen := [''a.b.c''],
                       rs_log := [''ghost: Class globbing did not yield any results'',
                                  ''a.b.c: Class definition not found'']\<rparr>))"
proof -
  have p1: "get_class_paths ''a.b.c'' (sd_path (rs_data (ex_state ''n'')))
     = (''/srv/classes/a.b.c.yml'', ''/srv/classes/a/b/c/init.yml'', ''/srv/classes/a/b/c.yml'')"
    by code_simp
  have p2: "get_class_paths ''ghost'' (sd_path (rs_data (ex_state ''n'')))
     = (''/srv/classes/ghost.yml'', ''/srv/classes/ghost/init.yml'', ''/srv/classes/ghost.yml'')"
    by code_simp
  have w: "walk_files ex_miss_env (path_join (sd_path (rs_data (ex_state ''n''))) [''classes''])
       = [''/srv/classes/a.b/c.yml'']"
    by code_simp
  have s: "rs_seen (ex_state ''n'') = []" "rs_log (ex_state ''n'') = []"
    by (simp_all add: ex_state_def)
  have g: "glob ex_miss_env ''/srv/classes/ghost.yml'' = []"
    "glob ex_miss_env ''/srv/classes/ghost/init.yml'' = []"
    by (simp_all add: ex_miss_env_def ex_miss_glob_def)
  have full: "expand_classes_in_order ex_miss_env 2 ex_miss_doc (ex_state ''n'') (VList [])
       = Some (Inr ([(''a.b.c'', []), (''n'', ex_miss_doc)],
                    (ex_state ''n'')\<lparr>rs_seen := [''a.b.c''],
                       rs_log := [''ghost: Class globbing did not yield any results'',
                                  ''a.b.c: Class definition not found'']\<rparr>))"
    by code_simp
  from missing_class_not_fatal[OF p1, of ex_miss_env 0 "[]" "[]"] w
  have a: "get_class ex_miss_env ''a.b.c'' (ex_state ''n'')
       = Inr (VDict [], (ex_state ''n'')\<lparr>rs_log := [''a.b.c: Class definition not found'']\<rparr>)"
    and b: "expand_loop ex_miss_env 0 [''a.b.c''] [] (ex_state ''n'')
       = Some (Inr ([(''a.b.c'', [])],
                    (ex_state ''n'')\<lparr>rs_seen := [''a.b.c''],
                                      rs_log := [''a.b.c: Class definition not found'']\<rparr>))"
    by (simp_all add: s od_update_def)
  from missing_class_not_fatal[OF p2, of ex_miss_env 0 "[]" "[]"] w g
  have c: "expand_classes_glob ex_miss_env (VList [VStr ''ghost'']) (ex_state ''n'')
       = Inr ([], (ex_state ''n'')\<lparr>rs_log := [''ghost: Class globbing did not yield any results'']\<rparr>)"
    by (simp add: s)
  from p1 w a b p2 c full show ?thesis by blast
qed

lemma foldl_last_match:
  "foldl (\<lambda>f x. if P x then g x else f) acc xs =
     (if filter P xs = [] then acc else g (last (filter P xs)))"
  by (induction xs rule: rev_induct) auto

lemma node_file_step_eq:
  "node_file_step minion_id file entry =
     (let ms = (case entry of (root, dirs, files) \<Rightarrow>
                  map (path_join2 root) (filter (\<lambda>f. f = minion_id @ ''.yml'') files))
      in if ms = [] then file else last ms)"
  by (cases entry) (simp add: node_file_step_def foldl_last_match last_map)

lemma foldl_node_file_step:
  "foldl (node_file_step minion_id) acc entries =
     (let ms = concat (map (\<lambda>(root, dirs, files).
                  map (path_join2 root) (filter (\<lambda>f. f = minion_id @ ''.yml'') files)) entries)
      in if ms = [] then acc else last ms)"
proof (induction entries rule: rev_induct)
  case Nil
  then show ?case by simp
next
  case (snoc en entries)
  obtain root dirs files where en: "en = (root, dirs, files)" by (cases en)
  show ?case
    using snoc.IH by (simp add: node_file_step_eq en Let_def)
qed

text \<open>
  Claim C9, as the code has it. The node's document is the last file named after the node
  that the walk of \<^verbatim>\<open>nodes/\<close> reaches: every later match overwrites the earlier one.
\<close>

theorem node_file_is_last_match:
  assumes "node_matches e minion_id sd \<noteq> []"
  shows "node_file e minion_id sd = last (node_matches e minion_id sd)"
proof -
  have "node_file e minion_id sd =
          (if node_matches e minion_id sd = [] then [] else last (node_matches e minion_id sd))"
    unfolding node_file_def node_matches_def foldl_node_file_step Let_def ..
  with assms show ?thesis by (simp only: if_False)
qed

theorem node_file_is_last_match_witness:
  "node_matches ex_dup_env ''n'' (ex_data ''n'') \<noteq> []
   \<and> node_file ex_dup_env ''n'' (ex_data ''n'') = ''/srv/nodes/b/n.yml''"
proof -
  have m: "node_matches ex_dup_env ''n'' (ex_data ''n'') =
             [''/srv/nodes/a/n.yml'', ''/srv/nodes/b/n.yml'']"
    by (simp add: node_matches_def ex_dup_env_def ex_dup_walk_def ex_data_def
        path_join_def path_join2_def startswith_def endswith_def)
  then have "node_matches ex_dup_env ''n'' (ex_data ''n'') \<noteq> []" by simp
  from node_file_is_last_match[OF this] m show ?thesis by simp
qed

text \<open>With two files named after the node, the file selected is not the first one found.\<close>

theorem node_file_first_match_counterexample:
  "node_matches ex_dup_env ''n'' (ex_data ''n'') = [''/srv/nodes/a/n.yml'', ''/srv/nodes/b/n.yml'']
   \<and> node_file ex_dup_env ''n'' (ex_data ''n'') \<noteq> hd (node_matches ex_dup_env ''n'' (ex_data ''n''))"
  by (simp add: node_file_def node_file_step_def node_matches_def ex_dup_env_def ex_dup_walk_def
      ex_data_def path_join_def path_join2_def startswith_def endswith_def)

section \<open>Properties of the variable expander\<close>

lemmas expander_eval = expand_variables_def find_and_process_re_def finditer_def
  match_here_def newline_def process_match_def startswith_def backslash_def
  find_value_to_expand_def current_str_def Let_def

lemma dsr_map:
  "dict_search_and_replace d old new = map (\<lambda>(k, v). (k, replace_value old new v)) d"
  by (induction d) (auto simp: replace_value_def)

lemma ril_map: "replace_in_list xs old new = map (replace_elem old new) xs"
  by (induction xs) (auto simp: replace_elem_def)

lemma map_of_dsr:
  "map_of (dict_search_and_replace d old new) k = map_option (replace_value old new) (map_of d k)"
  unfolding dsr_map by (induction d) auto

lemma lookup_replaced_gen:
  "searched f p \<Longrightarrow> lookup_path v p = Some (VStr s) \<Longrightarrow>
   lookup_path ((if f then replace_elem old new else replace_value old new) v) p
     = Some (VStr (if s = old then new else s))"
proof (induction p arbitrary: v f)
  case Nil
  then show ?case by (auto simp: replace_elem_def replace_value_def)
next
  case (Cons st ps)
  show ?case
  proof (cases st)
    case (PKey k)
    from Cons.prems(2) PKey obtain d v' where v: "v = VDict d" and m: "map_of d k = Some v'"
      and l: "lookup_path v' ps = Some (VStr s)"
      by (auto split: val.splits option.splits)
    from Cons.prems(1) PKey have "searched False ps" by simp
    from Cons.IH[OF this l] have
      "lookup_path (replace_value old new v') ps = Some (VStr (if s = old then new else s))"
      by simp
    then show ?thesis using v m PKey
      by (simp add: replace_elem_def replace_value_def map_of_dsr)
  next
    case (PIdx i)
    from Cons.prems(1) PIdx have f: "\<not> f" and sp: "searched True ps" by auto
    from Cons.prems(2) PIdx obtain xs where v: "v = VList xs" and i: "i < length xs"
      and l: "lookup_path (xs ! i) ps = Some (VStr s)"
      by (auto split: val.splits if_splits)
    from Cons.IH[OF sp l] have
      "lookup_path (replace_elem old new (xs ! i)) ps = Some (VStr (if s = old then new else s))"
      by simp
    then show ?thesis using v i f PIdx
      by (simp add: replace_value_def ril_map)
  qed
qed

lemma lookup_replaced:
  assumes "searched False p" "lookup_path (VDict b) p = Some (VStr s)"
  shows "lookup_path (VDict (dict_search_and_replace b old new)) p
     = Some (VStr (if s = old then new else s))"
  using lookup_replaced_gen[OF assms, of old new] by (simp add: replace_value_def)

lemma str_replace_same_aux: "old \<noteq> [] \<Longrightarrow> new = old \<Longrightarrow> str_replace old new s = s"
proof (induction old new s rule: str_replace.induct)
  case (1 old new)
  then show ?case by simp
next
  case (2 old new c s)
  show ?case
  proof (cases "startswith old (c # s)")
    case True
    then have e: "c # s = old @ drop (length old) (c # s)"
      unfolding startswith_def by (metis append_take_drop_id)
    from "2.prems" have d: "drop (length old) (c # s) = drop (length old - 1) s"
      by (cases old) auto
    have "str_replace old new (c # s) = new @ str_replace old new (drop (length old - 1) s)"
      using True "2.prems" by simp
    also have "\<dots> = old @ drop (length old - 1) s"
      using "2.IH"(2) "2.prems" True by simp
    also have "\<dots> = c # s" using e d by simp
    finally show ?thesis .
  next
    case False
    then show ?thesis using "2.IH"(3) "2.prems" by simp
  qed
qed

lemma str_replace_same: "old \<noteq> [] \<Longrightarrow> str_replace old old s = s"
  by (simp add: str_replace_same_aux)

lemma dsr_same_aux:
  "new = old \<Longrightarrow> dict_search_and_replace b old new = b"
  "new = old \<Longrightarrow> replace_in_list xs old new = xs"
proof (induction b old new and xs old new rule: dict_search_and_replace_replace_in_list.induct)
  case (1 old new)
  then show ?case by simp
next
  case (2 k v rest old new)
  then show ?case by (cases v) auto
next
  case (3 old new)
  then show ?case by simp
next
  case (4 i rest old new)
  then show ?case by (cases i) auto
qed

lemma dsr_same: "dict_search_and_replace b s s = b"
  by (simp add: dsr_same_aux)

lemma process_single:
  assumes "finditer str = [m]"
    and "\<not> startswith [backslash] m"
    and "tok = (if startswith ''$'' m then m else tl m)"
    and "find_value_to_expand b tok = Inr (VStr r)"
    and "v = None \<or> v = Some str"
  shows "find_and_process_re str v b
           = Inr (dict_search_and_replace b str (str_replace tok r str))"
  using assms
  by (auto simp: find_and_process_re_def process_match_def Let_def split: option.splits)

lemma substitute_tail:
  "list_all (\<lambda>m. \<not> startswith [backslash] m) ms \<Longrightarrow>
   list_all (\<lambda>m. \<not> startswith ''$'' m) ms \<Longrightarrow>
   spec_substitute ms s b = Some (s', b') \<Longrightarrow>
   process_matches ms (s, v, b) = Inr (s', v, b')"
proof (induction ms arbitrary: s b)
  case Nil
  then show ?case by simp
next
  case (Cons m ms)
  from Cons.prems(3) obtain r where
    f: "find_value_to_expand b (tl m) = Inr (VStr r)"
    and rest: "spec_substitute ms (str_replace (tl m) r s)
                 (dict_search_and_replace b s (str_replace (tl m) r s)) = Some (s', b')"
    using Cons.prems(2)
    by (auto simp: token_of_def Let_def split: sum.splits val.splits)
  have "process_match m (s, v, b)
          = Inr (str_replace (tl m) r s, v, dict_search_and_replace b s (str_replace (tl m) r s))"
    using Cons.prems(1,2) f by (simp add: process_match_def Let_def)
  moreover from Cons.IH[OF _ _ rest] Cons.prems(1,2)
  have "process_matches ms (str_replace (tl m) r s, v,
           dict_search_and_replace b s (str_replace (tl m) r s)) = Inr (s', v, b')" by simp
  ultimately show ?case by simp
qed

lemma substitute_process:
  assumes "plain_matches ms"
    and "spec_substitute ms s b = Some (s', b')"
    and "v = None \<or> v = Some s"
  shows "\<exists>v'. process_matches ms (s, v, b) = Inr (s', v', b')"
proof (cases ms)
  case Nil
  with assms show ?thesis by simp
next
  case (Cons m rest)
  from assms(1) Cons have nb: "\<not> startswith [backslash] m"
    and t1: "list_all (\<lambda>m. \<not> startswith [backslash] m) rest"
    and t2: "list_all (\<lambda>m. \<not> startswith ''$'' m) rest"
    by (auto simp: plain_matches_def)
  from assms(2) Cons obtain r where
    f: "find_value_to_expand b (token_of m) = Inr (VStr r)"
    and rest: "spec_substitute rest (str_replace (token_of m) r s)
                 (dict_search_and_replace b s (str_replace (token_of m) r s)) = Some (s', b')"
    by (auto simp: Let_def split: sum.splits val.splits)
  let ?s1 = "str_replace (token_of m) r s"
  let ?b1 = "dict_search_and_replace b s ?s1"
  have "\<exists>v1. process_match m (s, v, b) = Inr (?s1, v1, ?b1)"
    using nb f assms(3)
    by (auto simp: process_match_def Let_def token_of_def split: option.splits)
  then obtain v1 where p: "process_match m (s, v, b) = Inr (?s1, v1, ?b1)" by blast
  from substitute_tail[OF t1 t2 rest, of v1]
  have "process_matches rest (?s1, v1, ?b1) = Inr (s', v1, b')" .
  with p Cons show ?thesis by simp
qed

lemma substitute_places:
  "spec_substitute ms s b = Some (s', b') \<Longrightarrow> searched False p \<Longrightarrow>
   lookup_path (VDict b) p = Some (VStr s) \<Longrightarrow>
   lookup_path (VDict b') p = Some (VStr s')"
proof (induction ms arbitrary: s b)
  case Nil
  then show ?case by simp
next
  case (Cons m ms)
  from Cons.prems(1) obtain r where
    rest: "spec_substitute ms (str_replace (token_of m) r s)
                 (dict_search_and_replace b s (str_replace (token_of m) r s)) = Some (s', b')"
    by (auto simp: Let_def split: sum.splits val.splits)
  from lookup_replaced[OF Cons.prems(2,3), of s "str_replace (token_of m) r s"]
  have "lookup_path (VDict (dict_search_and_replace b s (str_replace (token_of m) r s))) p
          = Some (VStr (str_replace (token_of m) r s))" by simp
  from Cons.IH[OF rest Cons.prems(2) this] show ?case .
qed

text \<open>
  Claim C6, as the code has it. Let every match of the token pattern in a string be a
  plain token whose reference gives a string. Then the expander computes the new string
  by substituting, token after token, the string found for the token, and every place
  that the search reaches and that holds the original string holds the new string
  afterwards, whichever place the expander was reading. The search reaches the values of
  mappings and the elements of sequences that are values of mappings, recursively
  through mappings; it does not reach a sequence nested directly in a sequence.
\<close>

theorem expander_replaces_by_value:
  assumes "plain_matches (finditer str)"
    and "spec_substitute (finditer str) str b = Some (str', b')"
    and "searched False p"
    and "lookup_path (VDict b) p = Some (VStr str)"
  shows "find_and_process_re str (Some str) b = Inr b'
       \<and> find_and_process_re str None b = Inr b'
       \<and> lookup_path (VDict b') p = Some (VStr str')"
proof -
  from substitute_process[OF assms(1,2), of "Some str"]
  have 1: "find_and_process_re str (Some str) b = Inr b'"
    by (auto simp: find_and_process_re_def)
  from substitute_process[OF assms(1,2), of None]
  have 2: "find_and_process_re str None b = Inr b'"
    by (auto simp: find_and_process_re_def)
  from substitute_places[OF assms(2-4)] 1 2 show ?thesis by simp
qed

text \<open>A string with two tokens: reading it under \<^verbatim>\<open>url\<close> also updates the equal string in the
  sequence under \<^verbatim>\<open>all\<close>.\<close>

theorem expander_replaces_by_value_witness:
  "plain_matches (finditer ''http://${host}:${port}/'')
   \<and> spec_substitute (finditer ''http://${host}:${port}/'') ''http://${host}:${port}/'' ex_url_tree
       = Some (''http://h:80/'',
               [(''host'', VStr ''h''), (''port'', VStr ''80''), (''url'', VStr ''http://h:80/''),
                (''all'', VList [VStr ''http://h:80/''])])
   \<and> searched False [PKey ''all'', PIdx 0]
   \<and> lookup_path (VDict ex_url_tree) [PKey ''all'', PIdx 0]
       = Some (VStr ''http://${host}:${port}/'')
   \<and> find_and_process_re ''http://${host}:${port}/'' (Some ''http://${host}:${port}/'') ex_url_tree
       = Inr [(''host'', VStr ''h''), (''port'', VStr ''80''), (''url'', VStr ''http://h:80/''),
              (''all'', VList [VStr ''http://h:80/''])]
   \<and> lookup_path (VDict [(''host'', VStr ''h''), (''port'', VStr ''80''),
                           (''url'', VStr ''http://h:80/''),
                           (''all'', VList [VStr ''http://h:80/''])])
        [PKey ''all'', PIdx 0] = Some (VStr ''http://h:80/'')"
proof -
  have 1: "plain_matches (finditer ''http://${host}:${port}/'')" by code_simp
  have 2: "spec_substitute (finditer ''http://${host}:${port}/'') ''http://${host}:${port}/''
             ex_url_tree
       = Some (''http://h:80/'',
               [(''host'', VStr ''h''), (''port'', VStr ''80''), (''url'', VStr ''http://h:80/''),
                (''all'', VList [VStr ''http://h:80/''])])"
    by code_simp
  have 3: "searched False [PKey ''all'', PIdx 0]" by simp
  have 4: "lookup_path (VDict ex_url_tree) [PKey ''all'', PIdx 0]
       = Some (VStr ''http://${host}:${port}/'')"
    by (simp add: ex_url_tree_def)
  from expander_replaces_by_value[OF 1 2 3 4] 1 2 3 4 show ?thesis by simp
qed

text \<open>
  Where the claim fails. An occurrence of the original string in a sequence nested
  directly in a sequence is not replaced. A reference that gives an integer raises the
  TypeError of \<^verbatim>\<open>str.replace\<close>. After an escaped token (\<^verbatim>\<open>\${x}\<close> loses its backslash) the
  tree no longer holds the original string, and the token \<^verbatim>\<open>${y}\<close> of the same string is
  not substituted. A token that follows a dollar sign puts back the string as it was
  first, and the token \<^verbatim>\<open>${a}\<close> substituted before it is unresolved again.
\<close>

theorem expander_replaces_by_value_counterexample:
  "expand_variables
     (VDict [(''a'', VStr ''v''), (''c'', VStr ''${a}''), (''d'', VList [VList [VStr ''${a}'']])])
     = Inr [(''a'', VStr ''v''), (''c'', VStr ''v''), (''d'', VList [VList [VStr ''${a}'']])]
   \<and> expand_variables (VDict [(''a'', VInt 5), (''c'', VStr ''x${a}'')]) = Inl TypeError
   \<and> expand_variables
       (VDict [(''y'', VStr ''Y''), (''c'', VStr (''a'' @ [backslash] @ ''${x}b${y}''))])
     = Inr [(''y'', VStr ''Y''), (''c'', VStr ''a${x}b${y}'')]
   \<and> expand_variables
       (VDict [(''a'', VStr ''A''), (''d'', VStr ''D''), (''c'', VStr ''x${a}$${d}'')])
     = Inr [(''a'', VStr ''A''), (''d'', VStr ''D''), (''c'', VStr ''x${a}$${d}'')]"
  by code_simp

text \<open>The worked example of the specification.\<close>

lemma expand_variables_example:
  "expand_variables
     (VDict [(''a'', VDict [(''b'', VStr ''v'')]), (''c'', VStr ''pre-${a:b}-post'')])
   = Inr [(''a'', VDict [(''b'', VStr ''v'')]), (''c'', VStr ''pre-v-post'')]"
  by (simp add: expander_eval)

text \<open>A reference with a segment that is absent from a mapping is returned as it is, and
  a string whose only token is such a reference leaves the tree unchanged.\<close>

lemma find_value_descend_absent:
  "segment_absent a segs \<Longrightarrow> find_value_descend a segs v = Inr (VStr v)"
  by (induction a segs v rule: find_value_descend.induct)
     (auto split: val.splits option.splits)

lemma unresolved_reference_unchanged:
  assumes "finditer str = [m]"
    and "\<not> startswith [backslash] m"
    and "tok = (if startswith ''$'' m then m else tl m)"
    and "tok \<noteq> []"
    and "segment_absent (VDict b) (split_on CHR '':'' (drop 2 (butlast tok)))"
  shows "find_and_process_re str (Some str) b = Inr b"
proof -
  have "find_value_to_expand b tok = Inr (VStr tok)"
    unfolding find_value_to_expand_def by (rule find_value_descend_absent[OF assms(5)])
  from process_single[OF assms(1-3) this, of "Some str"] assms(4) show ?thesis
    by (simp add: str_replace_same dsr_same)
qed

lemma expand_variables_missing_example:
  "expand_variables (VDict [(''c'', VStr ''${missing:key}'')])
   = Inr [(''c'', VStr ''${missing:key}'')]"
  by (simp add: expander_eval)

text \<open>
  Claim C7 at a reference that descends into a scalar: the pillar tree
  \<^verbatim>\<open>{"a": 5, "c": "${a:b}"}\<close> has no \<^verbatim>\<open>a:b\<close>, and the expansion raises the TypeError of
  \<^verbatim>\<open>"b" in 5\<close> instead of leaving the reference as it is.
\<close>

theorem expand_variables_scalar_segment_raises:
  "expand_variables (VDict [(''a'', VInt 5), (''c'', VStr ''${a:b}'')]) = Inl TypeError"
  by (simp add: expander_eval)

section \<open>Properties of the expansion\<close>

lemma dict_set_append: "k \<notin> fst ` set d \<Longrightarrow> dict_set d k v = d @ [(k, v)]"
  by (induction d k v rule: dict_set.induct) auto

lemma od_update_append:
  "distinct (map fst ys) \<Longrightarrow> fst ` set xs \<inter> fst ` set ys = {} \<Longrightarrow> od_update xs ys = xs @ ys"
proof (induction ys arbitrary: xs)
  case Nil
  then show ?case by (simp add: od_update_def)
next
  case (Cons y ys)
  obtain k v where y: "y = (k, v)" by (cases y)
  from Cons.prems have k: "k \<notin> fst ` set xs" "k \<notin> fst ` set ys" "distinct (map fst ys)"
    and dj: "fst ` set xs \<inter> fst ` set ys = {}" unfolding y by auto
  have "od_update xs (y # ys) = od_update (dict_set xs k v) ys"
    by (simp add: od_update_def y)
  also have "\<dots> = od_update (xs @ [(k, v)]) ys" using k(1) by (simp add: dict_set_append)
  also have "\<dots> = (xs @ [(k, v)]) @ ys"
    using k dj by (intro Cons.IH) auto
  finally show ?case by (simp add: y)
qed

lemma move_to_end_last:
  "k \<notin> fst ` set xs \<Longrightarrow> move_to_end (xs @ [(k, v)]) k = xs @ [(k, v)]"
proof -
  assume a: "k \<notin> fst ` set xs"
  then have "map_of xs k = None" by (simp add: map_of_eq_None_iff)
  then have "map_of (xs @ [(k, v)]) k = Some v" by (simp add: map_add_def)
  moreover have "filter (\<lambda>(k', v'). k' \<noteq> k) xs = xs" using a by (induction xs) auto
  ultimately show ?thesis by (simp add: move_to_end_def)
qed

lemma klass_dict_eq:
  assumes "distinct (map fst nested)" "k \<notin> fst ` set nested"
  shows "move_to_end (od_update [(k, d)] nested) k = nested @ [(k, d)]"
proof -
  have "od_update [(k, d)] nested = (k, d) # nested"
    using od_update_append[of nested "[(k, d)]"] assms by auto
  moreover have "map_of ((k, d) # nested) k = Some d" by simp
  moreover have "filter (\<lambda>(k', v'). k' \<noteq> k) ((k, d) # nested) = nested"
    using assms(2) by (induction nested) auto
  ultimately show ?thesis by (simp add: move_to_end_def)
qed

lemma ordered_from_mono:
  "ordered_from e p S xs \<Longrightarrow> set S \<subseteq> set S' \<Longrightarrow> ordered_from e p S' xs"
proof (induction xs arbitrary: S S')
  case Nil
  then show ?case by simp
next
  case (Cons x xs)
  obtain Q dQ where x: "x = (Q, dQ)" by (cases x)
  from Cons.prems have q: "ordered_from e p (Q # S) xs" unfolding x by simp
  have "ordered_from e p (Q # S') xs"
    by (rule Cons.IH[OF q]) (use Cons.prems(2) in auto)
  then show ?case using Cons.prems unfolding x by (auto simp: list_all_iff)
qed

lemma ordered_from_append:
  "ordered_from e p S xs \<Longrightarrow> ordered_from e p (map fst xs @ S) ys \<Longrightarrow> ordered_from e p S (xs @ ys)"
proof (induction xs arbitrary: S)
  case Nil
  then show ?case by simp
next
  case (Cons x xs)
  obtain Q dQ where x: "x = (Q, dQ)" by (cases x)
  from Cons.prems(1) have 1: "ordered_from e p (Q # S) xs" unfolding x by simp
  have "ordered_from e p (map fst xs @ Q # S) ys"
    by (rule ordered_from_mono[OF Cons.prems(2)]) (auto simp: x)
  from Cons.IH[OF 1 this] have "ordered_from e p (Q # S) (xs @ ys)" .
  then show ?case using Cons.prems(1) unfolding x by (auto simp: list_all_iff list_ex_iff)
qed

lemma ordered_from_snoc_parent:
  assumes "ordered_from e p (k # S) nested" "map_of d ''classes'' \<noteq> None"
    "set (class_list e p d) \<subseteq> set S \<union> {k} \<union> fst ` set nested"
  shows "ordered_from e p S (nested @ [(k, d)])"
  using assms
proof (induction nested arbitrary: S)
  case Nil
  then show ?case by (auto simp: list_all_iff)
next
  case (Cons x xs)
  obtain Q dQ where x: "x = (Q, dQ)" by (cases x)
  from Cons.prems(1) have 0: "ordered_from e p (Q # k # S) xs" unfolding x by simp
  have 1: "ordered_from e p (k # Q # S) xs" by (rule ordered_from_mono[OF 0]) auto
  have "ordered_from e p (Q # S) (xs @ [(k, d)])"
    by (rule Cons.IH[OF 1 Cons.prems(2)]) (use Cons.prems(3) x in auto)
  moreover have "list_all (\<lambda>C. C \<in> set S \<or> C = Q
                  \<or> list_ex (\<lambda>(C', dC). C' = C \<and> map_of dC ''classes'' \<noteq> None) (xs @ [(k, d)]))
               (class_list e p dQ)"
    using Cons.prems(1,2) unfolding x by (auto simp: list_all_iff list_ex_iff)
  ultimately show ?case unfolding x by simp
qed

lemma ordered_from_extract:
  assumes "ordered_from e p S (pre @ (P, dP) # post)" "C \<in> set (class_list e p dP)"
  shows "C \<in> set S \<union> fst ` set pre \<or> C = P
         \<or> (\<exists>dC. (C, dC) \<in> set post \<and> map_of dC ''classes'' \<noteq> None)"
  using assms
proof (induction pre arbitrary: S)
  case Nil
  then show ?case by (auto simp: list_all_iff list_ex_iff)
next
  case (Cons x pre)
  obtain Q dQ where x: "x = (Q, dQ)" by (cases x)
  from Cons.prems(1) have "ordered_from e p (Q # S) (pre @ (P, dP) # post)" unfolding x by simp
  from Cons.IH[OF this Cons.prems(2)] show ?case unfolding x by auto
qed

lemma get_class_frame:
  "get_class e klass st = Inr (doc, st') \<Longrightarrow>
   rs_seen st' = rs_seen st \<and> sd_path (rs_data st') = sd_path (rs_data st)
   \<and> sd_minion_id (rs_data st') = sd_minion_id (rs_data st)
   \<and> sd_pillar (rs_data st') = sd_pillar (rs_data st)"
  unfolding get_class_def
  by (auto simp: Let_def split: prod.splits if_splits sum.splits)

lemma load_class_frame:
  "load_class e klass st = Inr (doc, st') \<Longrightarrow>
   rs_seen st' = rs_seen st \<and> sd_path (rs_data st') = sd_path (rs_data st)
   \<and> sd_minion_id (rs_data st') = sd_minion_id (rs_data st)"
  unfolding load_class_def
  by (auto simp: Let_def dest!: get_class_frame split: prod.splits if_splits sum.splits)

lemma set_dedup_into: "set (dedup_into acc xs) = set acc \<union> set xs"
  by (induction acc xs rule: dedup_into.induct) auto

lemma distinct_dedup_into: "distinct acc \<Longrightarrow> distinct (dedup_into acc xs)"
  by (induction acc xs rule: dedup_into.induct) auto

lemma match_class_glob_universe:
  "set (fst (match_class_glob e cls p)) \<subseteq> class_universe e p"
  unfolding match_class_glob_def class_universe_def
  by (auto simp: Let_def split: prod.splits)

lemma glob_names_universe: "set (glob_names e p c) \<subseteq> class_universe e p"
  unfolding glob_names_def using match_class_glob_universe
  by (auto simp: set_dedup_into split: sum.splits)

lemma expand_classes_glob_eq:
  "expand_classes_glob e c st = Inr (names, st1) \<Longrightarrow>
   names = glob_names e (sd_path (rs_data st)) c \<and> rs_seen st1 = rs_seen st
   \<and> rs_data st1 = rs_data st"
  unfolding expand_classes_glob_def glob_names_def
  by (auto simp: Let_def comp_def split: sum.splits)

lemma expansion_inv_trans:
  assumes "expansion_inv e st new1 st1" "expansion_inv e st1 new2 st2"
  shows "expansion_inv e st (new1 @ new2) st2"
proof -
  from assms have o1: "ordered_from e (sd_path (rs_data st)) (rs_seen st) new1"
    and o2: "ordered_from e (sd_path (rs_data st)) (rs_seen st1) new2"
    and s1: "set (rs_seen st1) = set (rs_seen st) \<union> set (map fst new1)"
    unfolding expansion_inv_def by auto
  have "ordered_from e (sd_path (rs_data st)) (map fst new1 @ rs_seen st) new2"
    by (rule ordered_from_mono[OF o2]) (use s1 in auto)
  from ordered_from_append[OF o1 this]
  have "ordered_from e (sd_path (rs_data st)) (rs_seen st) (new1 @ new2)" .
  then show ?thesis using assms unfolding expansion_inv_def by auto
qed

lemma expansion_inv_refl: "expansion_inv e st [] st"
  unfolding expansion_inv_def by simp

lemma expand_loop_inv:
  assumes eco: "\<And>st cte ex st'. expand_classes_in_order e n [] st cte = Some (Inr (ex, st')) \<Longrightarrow>
      expansion_inv e st ex st' \<and> set (glob_names e (sd_path (rs_data st)) cte) \<subseteq> set (rs_seen st')"
  shows "expand_loop e n names ex st = Some (Inr (ex', st')) \<Longrightarrow>
     set names \<subseteq> class_universe e (sd_path (rs_data st)) \<Longrightarrow>
     distinct (map fst ex) \<Longrightarrow> fst ` set ex \<subseteq> set (rs_seen st) \<Longrightarrow>
     \<exists>new. ex' = ex @ new \<and> expansion_inv e st new st' \<and> set names \<subseteq> set (rs_seen st')"
proof (induction names arbitrary: ex st)
  case Nil
  then show ?case using expansion_inv_refl by auto
next
  case (Cons klass rest)
  let ?p = "sd_path (rs_data st)"
  show ?case
  proof (cases "klass \<in> set (rs_seen st)")
    case True
    with Cons.prems(1) have "expand_loop e n rest ex st = Some (Inr (ex', st'))" by simp
    from Cons.IH[OF this] Cons.prems(2-4) obtain new where
      n: "ex' = ex @ new" "expansion_inv e st new st'" "set rest \<subseteq> set (rs_seen st')" by auto
    from n(2) True have "klass \<in> set (rs_seen st')" unfolding expansion_inv_def by auto
    with n show ?thesis by auto
  next
    case False
    let ?st1 = "st\<lparr>rs_seen := rs_seen st @ [klass]\<rparr>"
    from Cons.prems(1) False obtain doc st2 where
      lc: "load_class e klass ?st1 = Inr (doc, st2)"
      by (auto split: sum.splits)
    from load_class_frame[OF lc] have f2: "rs_seen st2 = rs_seen st @ [klass]"
      "sd_path (rs_data st2) = ?p" "sd_minion_id (rs_data st2) = sd_minion_id (rs_data st)"
      by auto
    have ku: "klass \<in> class_universe e ?p" using Cons.prems(2) by simp
    obtain klass_dict st3 where
      kd: "(if map_of doc ''classes'' \<noteq> None then
             (case expand_classes_in_order e n [] st2 (the (map_of doc ''classes'')) of
                None \<Rightarrow> None
              | Some (Inl err) \<Rightarrow> Some (Inl err)
              | Some (Inr (nested_classes, st2')) \<Rightarrow>
                  Some (Inr (move_to_end (od_update [(klass, doc)] nested_classes) klass, st2')))
           else Some (Inr ([(klass, doc)], st2))) = Some (Inr (klass_dict, st3))"
      and rest: "expand_loop e n rest (od_update ex klass_dict) st3 = Some (Inr (ex', st'))"
      using Cons.prems(1) False lc by (auto split: sum.splits option.splits)
    have step': "expansion_inv e st klass_dict st3 \<and> klass \<in> set (rs_seen st3)"
    proof (cases "map_of doc ''classes''")
      case None
      with kd have "klass_dict = [(klass, doc)]" "st3 = st2" by auto
      then show ?thesis using f2 False ku None
        unfolding expansion_inv_def by (auto simp: class_list_def)
    next
      case (Some cte)
      with kd obtain nested where
        ec: "expand_classes_in_order e n [] st2 cte = Some (Inr (nested, st3))"
        and kd': "klass_dict = move_to_end (od_update [(klass, doc)] nested) klass"
        by (auto split: option.splits sum.splits)
      from eco[OF ec] have inv2: "expansion_inv e st2 nested st3"
        and gn: "set (glob_names e ?p cte) \<subseteq> set (rs_seen st3)" using f2 by auto
      from inv2 f2 have dn: "distinct (map fst nested)" and kn: "klass \<notin> fst ` set nested"
        unfolding expansion_inv_def by auto
      from klass_dict_eq[OF dn kn] kd' have kde: "klass_dict = nested @ [(klass, doc)]" by simp
      from inv2 f2 have o2: "ordered_from e ?p (rs_seen st @ [klass]) nested"
        unfolding expansion_inv_def by simp
      have o2': "ordered_from e ?p (klass # rs_seen st) nested"
        by (rule ordered_from_mono[OF o2]) auto
      have cl: "set (class_list e ?p doc) \<subseteq> set (rs_seen st) \<union> {klass} \<union> fst ` set nested"
        using gn inv2 f2 Some unfolding expansion_inv_def class_list_def by auto
      have "ordered_from e ?p (rs_seen st) (nested @ [(klass, doc)])"
        by (rule ordered_from_snoc_parent[OF o2' _ cl]) (simp add: Some)
      then show ?thesis using inv2 f2 False ku kde
        unfolding expansion_inv_def by auto
    qed
    then have step: "expansion_inv e st klass_dict st3" and k3: "klass \<in> set (rs_seen st3)"
      by auto
    from step have dj: "fst ` set ex \<inter> fst ` set klass_dict = {}" and dk: "distinct (map fst klass_dict)"
      using Cons.prems(4) unfolding expansion_inv_def by auto
    from od_update_append[OF dk dj] have ou: "od_update ex klass_dict = ex @ klass_dict" .
    from step have p3: "sd_path (rs_data st3) = ?p"
      and s3: "set (rs_seen st3) = set (rs_seen st) \<union> set (map fst klass_dict)"
      unfolding expansion_inv_def by auto
    have "\<exists>new. ex' = (ex @ klass_dict) @ new \<and> expansion_inv e st3 new st'
            \<and> set rest \<subseteq> set (rs_seen st')"
      by (rule Cons.IH[OF rest[unfolded ou]])
         (use Cons.prems(2-4) p3 s3 dk dj in auto)
    then obtain new where n: "ex' = (ex @ klass_dict) @ new" "expansion_inv e st3 new st'"
      "set rest \<subseteq> set (rs_seen st')" by blast
    from expansion_inv_trans[OF step n(2)] have "expansion_inv e st (klass_dict @ new) st'" .
    moreover have "klass \<in> set (rs_seen st')"
      using k3 n(2) unfolding expansion_inv_def by auto
    ultimately show ?thesis using n by auto
  qed
qed

lemma expand_classes_in_order_inv:
  "expand_classes_in_order e n md st cte = Some (Inr (ex, st')) \<Longrightarrow>
   \<exists>new. ex = (if md \<noteq> [] then dict_set new (sd_minion_id (rs_data st)) md else new)
      \<and> expansion_inv e st new st'
      \<and> set (glob_names e (sd_path (rs_data st)) (effective_classes md cte)) \<subseteq> set (rs_seen st')"
proof (induction n arbitrary: md st cte ex st')
  case 0
  then show ?case by simp
next
  case (Suc n)
  let ?c = "effective_classes md cte"
  from Suc.prems obtain names st1 new where
    g: "expand_classes_glob e ?c st = Inr (names, st1)"
    and l: "expand_loop e n names [] st1 = Some (Inr (new, st'))"
    and ex: "ex = (if md \<noteq> [] then dict_set new (sd_minion_id (rs_data st')) md else new)"
    unfolding effective_classes_def
    by (auto split: sum.splits option.splits)
  from expand_classes_glob_eq[OF g] have n: "names = glob_names e (sd_path (rs_data st)) ?c"
    and s1: "rs_seen st1 = rs_seen st" "rs_data st1 = rs_data st" by auto
  have eco: "\<And>st cte ex st'. expand_classes_in_order e n [] st cte = Some (Inr (ex, st')) \<Longrightarrow>
      expansion_inv e st ex st' \<and> set (glob_names e (sd_path (rs_data st)) cte) \<subseteq> set (rs_seen st')"
  proof -
    fix st cte ex st'
    assume "expand_classes_in_order e n [] st cte = Some (Inr (ex, st'))"
    from Suc.IH[OF this] show "expansion_inv e st ex st'
       \<and> set (glob_names e (sd_path (rs_data st)) cte) \<subseteq> set (rs_seen st')"
      by (simp add: effective_classes_def)
  qed
  have "\<exists>new'. new = [] @ new' \<and> expansion_inv e st1 new' st' \<and> set names \<subseteq> set (rs_seen st')"
    by (rule expand_loop_inv[OF eco l]) (use n s1 glob_names_universe in auto)
  then have inv1: "expansion_inv e st1 new st'" and ns: "set names \<subseteq> set (rs_seen st')" by auto
  from inv1 s1 have inv: "expansion_inv e st new st'" unfolding expansion_inv_def by simp
  then have "sd_minion_id (rs_data st') = sd_minion_id (rs_data st)"
    unfolding expansion_inv_def by simp
  with ex inv ns n show ?case by auto
qed


text \<open>Enough fuel: every nested call adds a class of the storage to the classes seen, so
  a bound above the number of classes not yet seen is never reached.\<close>

lemma card_unseen_less:
  assumes "finite U" "k \<in> U" "k \<notin> S"
  shows "card (U - (S \<union> {k})) < card (U - S)"
proof -
  have "U - (S \<union> {k}) \<subset> U - S" using assms by auto
  moreover have "finite (U - S)" using assms by simp
  ultimately show ?thesis by (rule psubset_card_mono[rotated])
qed

lemma card_unseen_mono:
  assumes "finite U" "S \<subseteq> S'"
  shows "card (U - S') \<le> card (U - S)"
  by (rule card_mono) (use assms in auto)

lemma expand_loop_returns:
  assumes eco: "\<And>st cte. sd_path (rs_data st) = p \<Longrightarrow>
                  card (class_universe e p - set (rs_seen st)) < n \<Longrightarrow>
                  expand_classes_in_order e n [] st cte \<noteq> None"
    and fin: "finite (class_universe e p)"
  shows "set names \<subseteq> class_universe e p \<Longrightarrow> sd_path (rs_data st) = p \<Longrightarrow>
         card (class_universe e p - set (rs_seen st)) \<le> n \<Longrightarrow>
         expand_loop e n names ex st \<noteq> None"
proof (induction names arbitrary: ex st)
  case Nil
  then show ?case by simp
next
  case (Cons klass rest)
  let ?U = "class_universe e p"
  show ?case
  proof (cases "klass \<in> set (rs_seen st)")
    case True
    with Cons show ?thesis by simp
  next
    case False
    let ?st1 = "st\<lparr>rs_seen := rs_seen st @ [klass]\<rparr>"
    show ?thesis
    proof (cases "load_class e klass ?st1")
      case (Inl err)
      with False show ?thesis by simp
    next
      case (Inr r)
      obtain doc st2 where r: "r = (doc, st2)" by (cases r)
      from load_class_frame[OF Inr[unfolded r]] have f2: "rs_seen st2 = rs_seen st @ [klass]"
        "sd_path (rs_data st2) = p" using Cons.prems(2) by auto
      have ku: "klass \<in> ?U" using Cons.prems(1) by simp
      have c2: "card (?U - set (rs_seen st2)) < n"
        using card_unseen_less[OF fin ku False] Cons.prems(3) f2 by simp
      show ?thesis
      proof (cases "map_of doc ''classes''")
        case None
        have "expand_loop e n rest (od_update ex [(klass, doc)]) st2 \<noteq> None"
          by (rule Cons.IH) (use Cons.prems(1) f2 c2 in auto)
        with False Inr r None show ?thesis by simp
      next
        case (Some cte)
        from eco[OF f2(2) c2] obtain res where
          ec: "expand_classes_in_order e n [] st2 cte = Some res" by blast
        show ?thesis
        proof (cases res)
          case (Inl err)
          with False Inr r Some ec show ?thesis by simp
        next
          case inr: (Inr q)
          obtain nested st3 where q: "q = (nested, st3)" by (cases q)
          from expand_classes_in_order_inv[OF ec[unfolded inr q]]
          have inv: "expansion_inv e st2 nested st3" by simp
          then have p3: "sd_path (rs_data st3) = p"
            and s3: "set (rs_seen st2) \<subseteq> set (rs_seen st3)"
            using f2 unfolding expansion_inv_def by auto
          have "card (?U - set (rs_seen st3)) \<le> card (?U - set (rs_seen st2))"
            by (rule card_unseen_mono[OF fin s3])
          with c2 have c3: "card (?U - set (rs_seen st3)) \<le> n" by simp
          have "expand_loop e n rest
                  (od_update ex (move_to_end (od_update [(klass, doc)] nested) klass)) st3 \<noteq> None"
            by (rule Cons.IH) (use Cons.prems(1) p3 c3 in auto)
          with False Inr r Some ec inr q show ?thesis by simp
        qed
      qed
    qed
  qed
qed

lemma expand_classes_in_order_returns:
  "finite (class_universe e p) \<Longrightarrow> sd_path (rs_data st) = p \<Longrightarrow>
   card (class_universe e p - set (rs_seen st)) < n \<Longrightarrow>
   expand_classes_in_order e n md st cte \<noteq> None"
proof (induction n arbitrary: md st cte)
  case 0
  then show ?case by simp
next
  case (Suc n)
  let ?c = "effective_classes md cte"
  show ?case
  proof (cases "expand_classes_glob e ?c st")
    case (Inl err)
    then show ?thesis by (simp add: effective_classes_def)
  next
    case (Inr r)
    obtain names st1 where r: "r = (names, st1)" by (cases r)
    from expand_classes_glob_eq[OF Inr[unfolded r]]
    have n: "names = glob_names e (sd_path (rs_data st)) ?c"
      and s1: "rs_seen st1 = rs_seen st" "rs_data st1 = rs_data st" by auto
    have "expand_loop e n names [] st1 \<noteq> None"
    proof (rule expand_loop_returns[where p = p])
      fix st' :: run_state and cte' :: val
      assume "sd_path (rs_data st') = p" "card (class_universe e p - set (rs_seen st')) < n"
      then show "expand_classes_in_order e n [] st' cte' \<noteq> None"
        using Suc.IH Suc.prems(1) by blast
    next
      show "finite (class_universe e p)" by fact
      show "set names \<subseteq> class_universe e p" using n glob_names_universe Suc.prems(2) by auto
      show "sd_path (rs_data st1) = p" using s1 Suc.prems(2) by simp
      show "card (class_universe e p - set (rs_seen st1)) \<le> n" using s1 Suc.prems(3) by simp
    qed
    then obtain res where "expand_loop e n names [] st1 = Some res" by blast
    with Inr r show ?thesis
      by (cases res) (auto simp: effective_classes_def split: prod.splits)
  qed
qed

lemma flat_universe:
  "class_universe (flat_env cs ns) p
     = (\<lambda>(n, d). get_class_from_file (ex_class_file n) p) ` set cs"
proof
  show "class_universe (flat_env cs ns) p
          \<subseteq> (\<lambda>(n, d). get_class_from_file (ex_class_file n) p) ` set cs"
    unfolding class_universe_def flat_env_def flat_glob_def
    by (auto simp: image_iff split: if_splits)
next
  show "(\<lambda>(n, d). get_class_from_file (ex_class_file n) p) ` set cs
          \<subseteq> class_universe (flat_env cs ns) p"
  proof
    fix x
    assume "x \<in> (\<lambda>(n, d). get_class_from_file (ex_class_file n) p) ` set cs"
    then obtain n d where nd: "(n, d) \<in> set cs" and x: "x = get_class_from_file (ex_class_file n) p"
      by auto
    from nd have "ex_class_file n \<in> set (glob (flat_env cs ns) (ex_class_file n))"
      unfolding flat_env_def flat_glob_def by force
    then show "x \<in> class_universe (flat_env cs ns) p"
      unfolding class_universe_def x by blast
  qed
qed

text \<open>
  Claim C4, as the code has it. With a bound above the number of classes of the storage
  not yet seen, the expansion returns. The node's document is appended under the node id
  only when it is not empty (\<^verbatim>\<open>if minion_dict:\<close>). When it is not empty and no class of
  the storage has the node id as its name, its entry is the last entry of the expansion.
  When it is empty, the expansion has no entry for the node id.
\<close>

theorem node_entry_is_last:
  assumes "finite (class_universe e (sd_path (rs_data st)))"
    and "card (class_universe e (sd_path (rs_data st)) - set (rs_seen st)) < fuel"
    and "sd_minion_id (rs_data st) \<notin> class_universe e (sd_path (rs_data st))"
  shows "\<exists>r. expand_classes_in_order e fuel minion_dict st classes_to_expand = Some r
           \<and> (\<forall>expanded_classes st'. r = Inr (expanded_classes, st') \<longrightarrow>
                 (minion_dict \<noteq> [] \<longrightarrow>
                    expanded_classes \<noteq> []
                    \<and> last expanded_classes = (sd_minion_id (rs_data st), minion_dict))
               \<and> (minion_dict = [] \<longrightarrow>
                    sd_minion_id (rs_data st) \<notin> fst ` set expanded_classes))"
proof -
  from expand_classes_in_order_returns[OF assms(1) refl assms(2)]
  obtain r where r: "expand_classes_in_order e fuel minion_dict st classes_to_expand = Some r"
    by blast
  have "(minion_dict \<noteq> [] \<longrightarrow>
            expanded_classes \<noteq> []
            \<and> last expanded_classes = (sd_minion_id (rs_data st), minion_dict))
       \<and> (minion_dict = [] \<longrightarrow> sd_minion_id (rs_data st) \<notin> fst ` set expanded_classes)"
    if eq: "r = Inr (expanded_classes, st')" for expanded_classes st'
  proof -
    from expand_classes_in_order_inv[OF r[unfolded eq]] obtain new where
      ex: "expanded_classes
             = (if minion_dict \<noteq> [] then dict_set new (sd_minion_id (rs_data st)) minion_dict
                else new)"
      and inv: "expansion_inv e st new st'"
      by auto
    from inv assms(3) have nk: "sd_minion_id (rs_data st) \<notin> fst ` set new"
      unfolding expansion_inv_def by auto
    show ?thesis
    proof (cases "minion_dict = []")
      case True
      with ex nk show ?thesis by simp
    next
      case False
      with dict_set_append[OF nk] ex
      have "expanded_classes = new @ [(sd_minion_id (rs_data st), minion_dict)]" by simp
      with False show ?thesis by simp
    qed
  qed
  with r show ?thesis by blast
qed

lemma ex_dup_universe: "class_universe ex_dup_env p = {}"
  unfolding class_universe_def ex_dup_env_def ex_no_glob_def by simp

lemma ex_nest_universe: "class_universe ex_nest_env ''/srv'' = {''P'', ''C''}"
  unfolding ex_nest_env_def flat_universe
  by (simp add: ex_class_P_def ex_class_C_def get_class_from_file_def ex_class_file_def path_join_def
      path_join2_def startswith_def endswith_def Let_def)

text \<open>The node \<^verbatim>\<open>n\<close> includes \<^verbatim>\<open>P\<close>, which includes \<^verbatim>\<open>C\<close>: the entry of \<^verbatim>\<open>n\<close> is the last of
  three. A node without a file has the empty document, and the expansion is empty.\<close>

theorem node_entry_is_last_witness:
  "finite (class_universe ex_nest_env (sd_path (rs_data (ex_state ''n''))))
   \<and> card (class_universe ex_nest_env (sd_path (rs_data (ex_state ''n'')))
            - set (rs_seen (ex_state ''n''))) < 3
   \<and> sd_minion_id (rs_data (ex_state ''n''))
        \<notin> class_universe ex_nest_env (sd_path (rs_data (ex_state ''n'')))
   \<and> expand_classes_in_order ex_nest_env 3 ex_nest_doc (ex_state ''n'') (VList [])
     = Some (Inr ([(''C'', []), (''P'', [(''classes'', VList [VStr ''C''])]), (''n'', ex_nest_doc)],
                  \<lparr>rs_data = \<lparr>sd_path = ''/srv'', sd_minion_id = ''n'',
                               sd_pillar = [(''k'', VStr ''c'')]\<rparr>,
                   rs_seen = [''P'', ''C''], rs_log = []\<rparr>))
   \<and> ex_nest_doc \<noteq> []
   \<and> last [(''C'', []), (''P'', [(''classes'', VList [VStr ''C''])]), (''n'', ex_nest_doc)]
       = (''n'', ex_nest_doc)
   \<and> finite (class_universe ex_dup_env (sd_path (rs_data (ex_state ''zz''))))
   \<and> card (class_universe ex_dup_env (sd_path (rs_data (ex_state ''zz'')))
            - set (rs_seen (ex_state ''zz''))) < 1
   \<and> sd_minion_id (rs_data (ex_state ''zz''))
        \<notin> class_universe ex_dup_env (sd_path (rs_data (ex_state ''zz'')))
   \<and> expand_classes_in_order ex_dup_env 1 [] (ex_state ''zz'') (VList [])
       = Some (Inr ([], ex_state ''zz''))
   \<and> ''zz'' \<notin> fst ` set ([] :: (string \<times> dict) list)"
proof -
  have p1: "sd_path (rs_data (ex_state ''n'')) = ''/srv''"
    by (simp add: ex_state_def ex_data_def)
  have f1: "finite (class_universe ex_nest_env (sd_path (rs_data (ex_state ''n''))))"
    by (simp add: p1 ex_nest_universe)
  have c1: "card (class_universe ex_nest_env (sd_path (rs_data (ex_state ''n'')))
            - set (rs_seen (ex_state ''n''))) < 3"
    by (simp add: p1 ex_nest_universe) (simp add: ex_state_def)
  have u1: "sd_minion_id (rs_data (ex_state ''n''))
              \<notin> class_universe ex_nest_env (sd_path (rs_data (ex_state ''n'')))"
    by (simp add: p1 ex_nest_universe) (simp add: ex_state_def ex_data_def)
  have e1: "expand_classes_in_order ex_nest_env 3 ex_nest_doc (ex_state ''n'') (VList [])
     = Some (Inr ([(''C'', []), (''P'', [(''classes'', VList [VStr ''C''])]), (''n'', ex_nest_doc)],
                  \<lparr>rs_data = \<lparr>sd_path = ''/srv'', sd_minion_id = ''n'',
                               sd_pillar = [(''k'', VStr ''c'')]\<rparr>,
                   rs_seen = [''P'', ''C''], rs_log = []\<rparr>))"
    by code_simp
  have n1: "ex_nest_doc \<noteq> []" by (simp add: ex_nest_doc_def)
  have f2: "finite (class_universe ex_dup_env (sd_path (rs_data (ex_state ''zz''))))"
    by (simp add: ex_dup_universe)
  have c2: "card (class_universe ex_dup_env (sd_path (rs_data (ex_state ''zz'')))
            - set (rs_seen (ex_state ''zz''))) < 1"
    by (simp add: ex_dup_universe)
  have u2: "sd_minion_id (rs_data (ex_state ''zz''))
              \<notin> class_universe ex_dup_env (sd_path (rs_data (ex_state ''zz'')))"
    by (simp add: ex_dup_universe)
  have e2: "expand_classes_in_order ex_dup_env 1 [] (ex_state ''zz'') (VList [])
       = Some (Inr ([], ex_state ''zz''))"
    by code_simp
  from node_entry_is_last[OF f1 c1 u1, of ex_nest_doc "VList []"] e1 n1
  have l1: "last [(''C'', []), (''P'', [(''classes'', VList [VStr ''C''])]), (''n'', ex_nest_doc)]
       = (''n'', ex_nest_doc)"
    by (simp add: ex_state_def ex_data_def)
  from node_entry_is_last[OF f2 c2 u2, of "[]" "VList []"] e2
  have l2: "''zz'' \<notin> fst ` set ([] :: (string \<times> dict) list)"
    by simp
  from f1 c1 u1 e1 n1 l1 f2 c2 u2 e2 l2 show ?thesis by blast
qed

text \<open>For a node without a file the node document is empty, and its expansion has no
  entry at all: none for the node.\<close>

theorem empty_node_not_appended_counterexample:
  "expand_classes_in_order ex_dup_env 1 [] (ex_state ''zz'') (VList [])
     = Some (Inr ([], ex_state ''zz''))"
  by code_simp

text \<open>
  Claim C5 at a node whose id is also the name of a class. The node \<^verbatim>\<open>a\<close> includes the
  classes \<^verbatim>\<open>a\<close> and \<^verbatim>\<open>b\<close>, and both are loaded. \<^verbatim>\<open>expanded_classes.update\<close> then finds the key
  \<^verbatim>\<open>a\<close> in the expansion and stores the document of the node there, in the first place,
  instead of appending it. The classes list is every key but the last
  (\<^verbatim>\<open>list(expanded_classes.keys())[:-1]\<close>): it loses the class \<^verbatim>\<open>b\<close>.
\<close>

theorem name_clash_drops_class:
  "expand_classes_in_order ex_clash_env 2 ex_clash_doc (ex_state ''a'') (VList [])
     = Some (Inr ([(''a'', ex_clash_doc), (''b'', [(''states'', VList [VStr ''sb''])])],
                  \<lparr>rs_data = \<lparr>sd_path = ''/srv'', sd_minion_id = ''a'', sd_pillar = []\<rparr>,
                   rs_seen = [''a'', ''b''], rs_log = []\<rparr>))
   \<and> classes_list [(''a'', ex_clash_doc), (''b'', [(''states'', VList [VStr ''sb''])])] = [''a'']"
  by code_simp


end
